theory Spec2Isabelle
  imports Main "HOL-Library.Monad_Syntax"
begin

section \<open>Data model of the B+Tree index (btree.h)\<close>

text \<open>
  Keys are the \<open>int\<close> keys of the INTEGER instantiation of the templates; the code only
  compares and copies them, so they are modelled as mathematical integers. Page numbers
  and array indices are natural numbers; where the C++ \<open>int\<close> arithmetic could leave the
  naturals (a subtraction, an index outside an array) the model returns \<open>None\<close>.
\<close>

datatype Datatype = INTEGER | DOUBLE | STRING

datatype Operator = LT | LTE | GTE | GT

record RecordId =
  page_number :: nat
  slot_number :: nat

record IndexMetaInfo =
  relationName :: string
  attrByteOffset :: nat
  attrType :: Datatype
  rootPageNo :: nat

text \<open>\<open>NonLeafNodeInt\<close>; its key array is called \<open>nkeyArray\<close> to keep it apart from
  the leaf's \<open>keyArray\<close>.\<close>

record NonLeafNode =
  level :: nat
  nkeyArray :: "int list"
  pageNoArray :: "nat list"

text \<open>\<open>LeafNodeInt\<close>.\<close>

record LeafNode =
  keyArray :: "int list"
  ridArray :: "RecordId list"
  rightSibPageNo :: nat

text \<open>
  A page of the index file is a block of bytes that the code reinterprets as one of the
  node structures. The model keeps the kind with the content: \<open>FileHeader\<close> stands at
  page number 0, which is never a valid page (\<open>Page::INVALID_NUMBER\<close>), and
  \<open>BlankPage\<close> is a page that was allocated and not yet written.
\<close>

datatype Page =
    FileHeader
  | BlankPage
  | MetaPage IndexMetaInfo
  | NonLeafPage NonLeafNode
  | LeafPage LeafNode

text \<open>The fan-out constants \<open>traits::LEAFSIZE\<close> and \<open>traits::NONLEAFSIZE\<close>. They
  derive from \<open>Page::SIZE\<close>, which is declared outside the index, so they are parameters.\<close>

record traits =
  LEAFSIZE :: nat
  NONLEAFSIZE :: nat

text \<open>Calls made to the buffer manager, in the order in which they are made.\<close>

datatype BufEvent = Pin nat | Unpin nat

text \<open>
  The \<open>BTreeIndex\<close> object together with the index file it owns. \<open>pages\<close> is the file
  seen through the buffer manager: page number \<open>p\<close> is \<open>pages ! p\<close>. A \<open>Page*\<close> of the
  code points into the buffer frame of a page; the model represents it by the page
  number and reads the frame as \<open>pages ! p\<close>. \<open>currentPageData\<close> is \<open>None\<close> for the
  null pointer.
\<close>

record BTreeIndex =
  pages :: "Page list"
  bufLog :: "BufEvent list"
  headerPageNum :: nat
  rootPageNum :: nat
  scanExecuting :: bool
  nextEntry :: nat
  currentPageNum :: nat
  currentPageData :: "nat option"
  lowValInt :: int
  highValInt :: int
  lowOp :: Operator
  highOp :: Operator

text \<open>The exceptions of the index; \<open>Abort\<close> stands for a run that leaves the described
  behaviour: undefined behaviour of the C++ code or a failure of the buffer manager.\<close>

datatype error =
    BadOpcodesException
  | BadScanrangeException
  | NoSuchKeyFoundException
  | ScanNotInitializedException
  | IndexScanCompletedException
  | Abort

subsection \<open>Arrays\<close>

text \<open>Reading and writing a C array inside its bounds; outside them the behaviour of
  the C++ code is undefined and the model yields \<open>None\<close>.\<close>

definition get :: "'a list \<Rightarrow> nat \<Rightarrow> 'a option" where
  "get xs i = (if i < length xs then Some (xs ! i) else None)"

definition put :: "'a list \<Rightarrow> nat \<Rightarrow> 'a \<Rightarrow> 'a list option" where
  "put xs i v = (if i < length xs then Some (xs[i := v]) else None)"

definition noRid :: RecordId where
  "noRid = \<lparr>page_number = 0, slot_number = 0\<rparr>"

text \<open>\<open>memset(&node, 0, sizeof(node))\<close> of a non-leaf and of a leaf structure.\<close>

definition zeroNonLeaf :: "traits \<Rightarrow> NonLeafNode" where
  "zeroNonLeaf t = \<lparr>level = 0, nkeyArray = replicate (NONLEAFSIZE t) 0,
                    pageNoArray = replicate (NONLEAFSIZE t + 1) 0\<rparr>"

definition zeroLeaf :: "traits \<Rightarrow> LeafNode" where
  "zeroLeaf t = \<lparr>keyArray = replicate (LEAFSIZE t) 0,
                 ridArray = replicate (LEAFSIZE t) noRid, rightSibPageNo = 0\<rparr>"

subsection \<open>The buffer manager\<close>

text \<open>
  Modelled from the spec: the buffer manager (\<open>BufMgr\<close>, buffer.h) is an external
  collaborator; the spec gives its contract: \<open>readPage\<close>, \<open>allocPage\<close> and \<open>unPinPage\<close>,
  where the first two pin the page they return. Reading a page number that the file does
  not hold fails. Pages are never freed, so \<open>allocPage\<close> returns the next unused number.
  The buffer pool is taken to be large enough that no frame in use is evicted, and
  writes through a frame reach the page.
\<close>

definition readPage :: "BTreeIndex \<Rightarrow> nat \<Rightarrow> (BTreeIndex \<times> Page) option" where
  "readPage s p =
     (if 0 < p \<and> p < length (pages s)
      then Some (s\<lparr>bufLog := bufLog s @ [Pin p]\<rparr>, pages s ! p)
      else None)"

definition allocPage :: "BTreeIndex \<Rightarrow> BTreeIndex \<times> nat" where
  "allocPage s =
     (let p = length (pages s)
      in (s\<lparr>pages := pages s @ [BlankPage], bufLog := bufLog s @ [Pin p]\<rparr>, p))"

definition unPinPage :: "BTreeIndex \<Rightarrow> nat \<Rightarrow> BTreeIndex" where
  "unPinPage s p = s\<lparr>bufLog := bufLog s @ [Unpin p]\<rparr>"

text \<open>Reinterpreting the frame of page \<open>p\<close> as a non-leaf or as a leaf node, and writing a
  node through such a pointer (or with \<open>memcpy\<close>).\<close>

definition nonLeafAt :: "BTreeIndex \<Rightarrow> nat \<Rightarrow> NonLeafNode option" where
  "nonLeafAt s p =
     (if p < length (pages s)
      then (case pages s ! p of NonLeafPage n \<Rightarrow> Some n | _ \<Rightarrow> None)
      else None)"

definition leafAt :: "BTreeIndex \<Rightarrow> nat \<Rightarrow> LeafNode option" where
  "leafAt s p =
     (if p < length (pages s)
      then (case pages s ! p of LeafPage n \<Rightarrow> Some n | _ \<Rightarrow> None)
      else None)"

text \<open>The frame a descent ends at, read through a leaf pointer. On an index without
  entries the descent ends at the root itself, which \<open>createRoot\<close> has zeroed but for
  its level: read as a leaf, its first key is the level (the field \<open>level\<close> and
  \<open>keyArray[0]\<close> of a leaf are both at offset 0) and everything else is zero. No other
  non-leaf frame is read as a leaf by a descent that follows the levels.\<close>

definition leafView :: "traits \<Rightarrow> BTreeIndex \<Rightarrow> nat \<Rightarrow> LeafNode option" where
  "leafView t s p =
     (if p < length (pages s)
      then (case pages s ! p of
              LeafPage n \<Rightarrow> Some n
            | NonLeafPage n \<Rightarrow>
                if n = (zeroNonLeaf t)\<lparr>level := level n\<rparr>
                then map_option (\<lambda>ka. (zeroLeaf t)\<lparr>keyArray := ka\<rparr>)
                       (put (keyArray (zeroLeaf t)) 0 (int (level n)))
                else None
            | _ \<Rightarrow> None)
      else None)"

definition writePage :: "BTreeIndex \<Rightarrow> nat \<Rightarrow> Page \<Rightarrow> BTreeIndex" where
  "writePage s p pg = s\<lparr>pages := (pages s)[p := pg]\<rparr>"

section \<open>Descent and split: \<open>getPageNoAndOffsetOfKeyInsert\<close>\<close>

text \<open>
  The choice of the child in a non-leaf node (the \<open>for\<close> loop of the descent, entered
  when the key is not smaller than \<open>keyArray[0]\<close>): the loop stops at the first \<open>i\<close>
  whose right neighbour \<open>pageNoArray[i+1]\<close> is invalid or whose key is greater than the
  search key, and runs to \<open>NONLEAFSIZE\<close> otherwise.
\<close>

function nonLeafSlot :: "traits \<Rightarrow> NonLeafNode \<Rightarrow> int \<Rightarrow> nat \<Rightarrow> nat option" where
  "nonLeafSlot t currPage keyValue i =
     (if i < NONLEAFSIZE t then do {
        p \<leftarrow> get (pageNoArray currPage) (i + 1);
        if p = 0 then Some i
        else do {
          k \<leftarrow> get (nkeyArray currPage) i;
          if k \<le> keyValue then nonLeafSlot t currPage keyValue (i + 1) else Some i
        }
      } else Some i)"
  by pat_completeness auto
termination
  by (relation "measure (\<lambda>(t, c, k, i). NONLEAFSIZE t - i)") auto

declare nonLeafSlot.simps [simp del]

text \<open>
  The \<open>while (depth < rootData->level)\<close> loop. \<open>currPage\<close> is the frame of \<open>lastPage\<close>;
  the loop writes no page, so the level of the root is read once by the caller. The
  vector \<open>pathOfTraversal\<close> is kept with its back at the head of the list. Every
  iteration pushes exactly one pair \<open>(i, lastPage)\<close>.
\<close>

function descend ::
  "traits \<Rightarrow> int \<Rightarrow> nat \<Rightarrow> BTreeIndex \<Rightarrow> nat \<Rightarrow> nat \<Rightarrow> (nat \<times> nat) list
     \<Rightarrow> (BTreeIndex \<times> nat \<times> (nat \<times> nat) list) option" where
  "descend t keyValue rootLevel s depth lastPage pathOfTraversal =
     (if depth < rootLevel then do {
        currPage \<leftarrow> nonLeafAt s lastPage;
        k0 \<leftarrow> get (nkeyArray currPage) 0;
        i \<leftarrow> (if keyValue < k0 then Some 0 else nonLeafSlot t currPage keyValue 0);
        child \<leftarrow> get (pageNoArray currPage) i;
        (s', tempPage) \<leftarrow> readPage (unPinPage s lastPage) child;
        descend t keyValue rootLevel s' (depth + 1) child ((i, lastPage) # pathOfTraversal)
      } else Some (s, lastPage, pathOfTraversal))"
  by pat_completeness auto
termination
  by (relation "measure (\<lambda>(t, k, rootLevel, s, depth, l, p). rootLevel - depth)") auto

declare descend.simps [simp del]

text \<open>
  The positioning loop inside the leaf. It returns the final loop index \<open>i\<close> and
  \<open>insertAt\<close>, which starts as \<open>LEAFSIZE\<close>. \<open>insertMode\<close> is the parameter \<open>insert\<close>.
\<close>

function leafSlot ::
  "traits \<Rightarrow> LeafNode \<Rightarrow> int \<Rightarrow> bool \<Rightarrow> nat \<Rightarrow> nat \<Rightarrow> (nat \<times> nat) option" where
  "leafSlot t dataPage keyValue insertMode i insertAt =
     (if i < LEAFSIZE t then do {
        r \<leftarrow> get (ridArray dataPage) i;
        if page_number r = 0
        then Some (i, if insertAt = LEAFSIZE t then i else insertAt)
        else do {
          k \<leftarrow> get (keyArray dataPage) i;
          if keyValue > k then leafSlot t dataPage keyValue insertMode (i + 1) insertAt
          else if insertAt = LEAFSIZE t
          then (if insertMode = False then Some (i, i)
                else leafSlot t dataPage keyValue insertMode (i + 1) i)
          else leafSlot t dataPage keyValue insertMode (i + 1) insertAt
        }
      } else Some (i, insertAt))"
  by pat_completeness auto
termination
  by (relation "measure (\<lambda>(t, d, k, ins, i, a). LEAFSIZE t - i)") auto

declare leafSlot.simps [simp del]

text \<open>\<open>for (k = offset; k <= NONLEAFSIZE; k++) if (pageNoArray[k] == INVALID_NUMBER) break;\<close>\<close>

function firstInvalid :: "traits \<Rightarrow> nat list \<Rightarrow> nat \<Rightarrow> nat option" where
  "firstInvalid t arr k =
     (if k \<le> NONLEAFSIZE t then do {
        p \<leftarrow> get arr k;
        if p = 0 then Some k else firstInvalid t arr (k + 1)
      } else Some k)"
  by pat_completeness auto
termination
  by (relation "measure (\<lambda>(t, a, k). NONLEAFSIZE t + 1 - k)") auto

declare firstInvalid.simps [simp del]

text \<open>
  The shift loop \<open>for (; k > offset; k--)\<close> that opens a slot in a non-leaf node:
  \<open>pageNoArray[k] = pageNoArray[k-1]\<close> when \<open>k-1 >= 0\<close> and
  \<open>keyArray[k-1] = keyArray[k-2]\<close> when \<open>k-2 >= 0\<close>.
\<close>

function shiftRight :: "NonLeafNode \<Rightarrow> nat \<Rightarrow> nat \<Rightarrow> NonLeafNode option" where
  "shiftRight node k offset =
     (if k > offset then do {
        node1 \<leftarrow> (if k \<ge> 1 then do {
                    v \<leftarrow> get (pageNoArray node) (k - 1);
                    a \<leftarrow> put (pageNoArray node) k v;
                    Some (node\<lparr>pageNoArray := a\<rparr>)
                  } else Some node);
        node2 \<leftarrow> (if k \<ge> 2 then do {
                    v \<leftarrow> get (nkeyArray node1) (k - 2);
                    a \<leftarrow> put (nkeyArray node1) (k - 1) v;
                    Some (node1\<lparr>nkeyArray := a\<rparr>)
                  } else Some node1);
        shiftRight node2 (k - 1) offset
      } else Some node)"
  by pat_completeness auto
termination
  by (relation "measure (\<lambda>(n, k, offset). k)") auto

declare shiftRight.simps [simp del]

text \<open>
  The loop that moves the upper half of a full non-leaf node to its new right sibling:
  \<open>for (i = medianIdxParent+1, j = 0; i < NONLEAFSIZE; i++, j++)\<close>.
\<close>

function moveNonLeaf ::
  "traits \<Rightarrow> NonLeafNode \<Rightarrow> NonLeafNode \<Rightarrow> nat \<Rightarrow> nat \<Rightarrow> (NonLeafNode \<times> NonLeafNode) option" where
  "moveNonLeaf t parentData dataPageRight i j =
     (if i < NONLEAFSIZE t then do {
        k \<leftarrow> get (nkeyArray parentData) i;
        ka \<leftarrow> put (nkeyArray dataPageRight) j k;
        p \<leftarrow> get (pageNoArray parentData) (i + 1);
        pa \<leftarrow> put (pageNoArray dataPageRight) (j + 1) p;
        pk \<leftarrow> put (nkeyArray parentData) i 0;
        pp \<leftarrow> put (pageNoArray parentData) (i + 1) 0;
        moveNonLeaf t (parentData\<lparr>nkeyArray := pk, pageNoArray := pp\<rparr>)
          (dataPageRight\<lparr>nkeyArray := ka, pageNoArray := pa\<rparr>) (i + 1) (j + 1)
      } else Some (parentData, dataPageRight))"
  by pat_completeness auto
termination
  by (relation "measure (\<lambda>(t, p, d, i, j). NONLEAFSIZE t - i)") auto

declare moveNonLeaf.simps [simp del]

text \<open>
  The loop that moves the upper half of a full leaf to its new right sibling:
  \<open>for (i = medianIdx, j = 0; i < LEAFSIZE; i++, j++)\<close>.
\<close>

function moveLeaf ::
  "traits \<Rightarrow> LeafNode \<Rightarrow> LeafNode \<Rightarrow> nat \<Rightarrow> nat \<Rightarrow> (LeafNode \<times> LeafNode) option" where
  "moveLeaf t dataPage dataPageRight i j =
     (if i < LEAFSIZE t then do {
        k \<leftarrow> get (keyArray dataPage) i;
        ka \<leftarrow> put (keyArray dataPageRight) j k;
        r \<leftarrow> get (ridArray dataPage) i;
        ra \<leftarrow> put (ridArray dataPageRight) j r;
        dk \<leftarrow> put (keyArray dataPage) i 0;
        dr \<leftarrow> put (ridArray dataPage) i noRid;
        moveLeaf t (dataPage\<lparr>keyArray := dk, ridArray := dr\<rparr>)
          (dataPageRight\<lparr>keyArray := ka, ridArray := ra\<rparr>) (i + 1) (j + 1)
      } else Some (dataPage, dataPageRight))"
  by pat_completeness auto
termination
  by (relation "measure (\<lambda>(t, p, d, i, j). LEAFSIZE t - i)") auto

declare moveLeaf.simps [simp del]

text \<open>
  Entering a key and the page on its right into a non-leaf node at \<open>offset\<close>. The
  code has these steps twice, for the copy of the node above a split non-leaf node and for
  the parent of a split leaf: find the first invalid page number from \<open>offset\<close> on,
  shift, then write the key at \<open>offset\<close> and the new page number at \<open>offset + 1\<close>.
\<close>

definition shiftInsert :: "traits \<Rightarrow> NonLeafNode \<Rightarrow> nat \<Rightarrow> int \<Rightarrow> nat \<Rightarrow> NonLeafNode option" where
  "shiftInsert t node offset newKey newPage = do {
     k \<leftarrow> firstInvalid t (pageNoArray node) offset;
     node \<leftarrow> shiftRight node k offset;
     pa \<leftarrow> put (pageNoArray node) (offset + 1) newPage;
     ka \<leftarrow> put (nkeyArray node) offset newKey;
     Some (node\<lparr>nkeyArray := ka, pageNoArray := pa\<rparr>)
   }"

text \<open>
  The split of a full non-leaf node \<open>parentData\<close> around \<open>medianIdxParent\<close>: the result is the
  node as it is left in place and the content \<open>dataPageRight\<close> of the new right sibling.
\<close>

definition splitNonLeaf :: "traits \<Rightarrow> NonLeafNode \<Rightarrow> (NonLeafNode \<times> NonLeafNode) option" where
  "splitNonLeaf t parentData = do {
     let medianIdxParent = NONLEAFSIZE t div 2;
     (parentData, dataPageRight) \<leftarrow>
       moveNonLeaf t parentData ((zeroNonLeaf t)\<lparr>level := level parentData\<rparr>)
         (medianIdxParent + 1) 0;
     p0 \<leftarrow> get (pageNoArray parentData) (medianIdxParent + 1);
     pr \<leftarrow> put (pageNoArray dataPageRight) 0 p0;
     pl \<leftarrow> put (pageNoArray parentData) (medianIdxParent + 1) 0;
     kl \<leftarrow> put (nkeyArray parentData) medianIdxParent 0;
     Some (parentData\<lparr>nkeyArray := kl, pageNoArray := pl\<rparr>, dataPageRight\<lparr>pageNoArray := pr\<rparr>)
   }"

text \<open>
  The node above a full non-leaf node: a new root when the path is empty (\<open>allocPage\<close>
  stores the new page number in \<open>rootPageNum\<close>), the node at the back of the path
  otherwise. The result is the local copy \<open>newRootData\<close>, \<open>parentParentPageId\<close> and
  \<open>parentParentOffset\<close>.
\<close>

definition nodeAbove ::
  "traits \<Rightarrow> BTreeIndex \<Rightarrow> nat \<Rightarrow> NonLeafNode \<Rightarrow> (nat \<times> nat) list
     \<Rightarrow> (BTreeIndex \<times> NonLeafNode \<times> nat \<times> nat) option" where
  "nodeAbove t s parentPageId parentData pathOfTraversal =
     (case pathOfTraversal of
        [] \<Rightarrow> do {
          let (s', newRoot) = allocPage s;
          pa \<leftarrow> put (pageNoArray (zeroNonLeaf t)) 0 parentPageId;
          Some (s'\<lparr>rootPageNum := newRoot\<rparr>,
                (zeroNonLeaf t)\<lparr>level := level parentData + 1, pageNoArray := pa\<rparr>,
                newRoot, 0)
        }
      | (i, pp) # rest \<Rightarrow> do {
          (s', newRoot) \<leftarrow> readPage s pp;
          nd \<leftarrow> nonLeafAt s' pp;
          Some (s', nd, pp, i)
        })"

text \<open>
  The branch \<open>k == NONLEAFSIZE+1\<close> of the loop over the path: the full node
  \<open>parentData\<close> (the frame of \<open>parentPageId\<close>) is split. \<open>newRootData\<close> is a local
  copy, written back with \<open>memcpy\<close> after the parent has been changed in place. \<open>G\<close>
  holds \<open>GparentPageId\<close> and \<open>Goffset\<close>; \<open>GparentData\<close> is the frame of \<open>GparentPageId\<close>.
\<close>

definition splitParent ::
  "traits \<Rightarrow> int \<Rightarrow> BTreeIndex \<Rightarrow> nat \<Rightarrow> nat \<Rightarrow> NonLeafNode \<Rightarrow> (nat \<times> nat) list \<Rightarrow> bool
     \<Rightarrow> (nat \<times> int) option \<Rightarrow> (BTreeIndex \<times> (nat \<times> int) option) option" where
  "splitParent t keyValue s offset parentPageId parentData pathOfTraversal done G = do {
     let medianIdxParent = NONLEAFSIZE t div 2;
     (s1, newRootData, parentParentPageId, parentParentOffset) \<leftarrow>
       nodeAbove t s parentPageId parentData pathOfTraversal;
     let (s2, greaterParentPage) = allocPage s1;
     median \<leftarrow> get (nkeyArray parentData) medianIdxParent;
     newRootData \<leftarrow> shiftInsert t newRootData parentParentOffset median greaterParentPage;
     (parentData, dataPageRight) \<leftarrow> splitNonLeaf t parentData;
     let G' = (if done = False
               then (if keyValue \<ge> median
                     then Some (greaterParentPage, int offset - int medianIdxParent - 1)
                     else Some (parentPageId, int offset))
               else G);
     let s3 = writePage s2 parentPageId (NonLeafPage parentData);
     let s4 = writePage s3 parentParentPageId (NonLeafPage newRootData);
     let s5 = writePage s4 greaterParentPage (NonLeafPage dataPageRight);
     let s6 = unPinPage s5 parentParentPageId;
     pL \<leftarrow> get (pageNoArray newRootData) parentParentOffset;
     let s7 = (if keyValue \<ge> median
               then (let u = unPinPage s6 pL
                     in if level newRootData \<ge> 4 then unPinPage u greaterParentPage else u)
               else (let u = unPinPage s6 greaterParentPage
                     in if level newRootData \<ge> 4 then unPinPage u pL else u));
     Some (s7, G')
   }"

text \<open>
  The loop \<open>while (pathOfTraversal.size() >= 1)\<close>: the path is consumed from its back;
  a node that is not full ends the loop. After the first split \<open>done\<close> is true.
\<close>

fun splitParents ::
  "traits \<Rightarrow> int \<Rightarrow> BTreeIndex \<Rightarrow> (nat \<times> nat) list \<Rightarrow> bool \<Rightarrow> (nat \<times> int) option
     \<Rightarrow> (BTreeIndex \<times> (nat \<times> int) option) option" where
  "splitParents t keyValue s [] done G = Some (s, G)"
| "splitParents t keyValue s ((offset, parentPageId) # pathOfTraversal) done G = do {
     (s1, parentPage) \<leftarrow> readPage s parentPageId;
     parentData \<leftarrow> nonLeafAt s1 parentPageId;
     let G1 = (if done = False then Some (parentPageId, int offset) else G);
     k \<leftarrow> firstInvalid t (pageNoArray parentData) offset;
     if k = NONLEAFSIZE t + 1 then do {
       (s2, G2) \<leftarrow> splitParent t keyValue s1 offset parentPageId parentData pathOfTraversal done G1;
       splitParents t keyValue s2 pathOfTraversal True G2
     } else do {
       (GparentPageId, Goffset) \<leftarrow> G1;
       Some (if GparentPageId \<noteq> parentPageId then unPinPage s1 parentPageId else s1, G1)
     }
   }"

text \<open>
  The split of a full leaf \<open>dataPage\<close> around \<open>medianIdx\<close>, when \<open>greaterKey\<close> is the number
  of the new page: the sibling pointers are set and the upper half moves. The result is
  the leaf as it is left in place and the content \<open>dataPageRight\<close> of the new leaf.
\<close>

definition splitLeafNode :: "traits \<Rightarrow> LeafNode \<Rightarrow> nat \<Rightarrow> (LeafNode \<times> LeafNode) option" where
  "splitLeafNode t dataPage greaterKey =
     moveLeaf t (dataPage\<lparr>rightSibPageNo := greaterKey\<rparr>)
       ((zeroLeaf t)\<lparr>rightSibPageNo := rightSibPageNo dataPage\<rparr>) (LEAFSIZE t div 2) 0"

text \<open>
  The split of the full leaf at \<open>lastPage\<close> after the loop over the path: the median key
  and the new page enter the node \<open>GparentData\<close> at \<open>Goffset\<close>, the upper half of the
  leaf moves to the new page. The result is
  \<open>(pageNo, insertAt, endOfRecordsOffset, lastPageNo)\<close> with the new state.
\<close>

definition splitLeaf ::
  "traits \<Rightarrow> int \<Rightarrow> BTreeIndex \<Rightarrow> nat \<Rightarrow> nat \<Rightarrow> nat \<times> int
     \<Rightarrow> (BTreeIndex \<times> nat \<times> int \<times> nat \<times> nat) option" where
  "splitLeaf t keyValue s lastPage insertAt G = do {
     let medianIdx = LEAFSIZE t div 2;
     let (parentPageId, Goffset) = G;
     offset \<leftarrow> (if Goffset < 0 then None else Some (nat Goffset));
     parentData \<leftarrow> nonLeafAt s parentPageId;
     dataPage \<leftarrow> leafAt s lastPage;
     median \<leftarrow> get (keyArray dataPage) medianIdx;
     let (s1, greaterKey) = allocPage s;
     parentData \<leftarrow> shiftInsert t parentData offset median greaterKey;
     let out = (if keyValue > median
                then (greaterKey, int insertAt - int medianIdx,
                      if LEAFSIZE t mod 2 \<noteq> 0 then medianIdx + 1 else medianIdx, lastPage)
                else (lastPage, int insertAt, medianIdx, lastPage));
     (dataPage, dataPageRight) \<leftarrow> splitLeafNode t dataPage greaterKey;
     let s2 = writePage s1 parentPageId (NonLeafPage parentData);
     let s3 = writePage s2 lastPage (LeafPage dataPage);
     let s4 = writePage s3 greaterKey (LeafPage dataPageRight);
     let s5 = unPinPage (unPinPage (unPinPage s4 lastPage) parentPageId) greaterKey;
     Some (s5, out)
   }"

text \<open>
  \<open>getPageNoAndOffsetOfKeyInsert\<close>. Both callers pass the frame of \<open>rootPageNum\<close>, which
  they have just read, as \<open>rootPage\<close>; \<open>insertMode\<close> is the parameter \<open>insert\<close>. The
  result is \<open>(pageNo, insertAt, endOfRecordsOffset, lastPageNo)\<close> with the new state.
  \<open>GparentPageId\<close> is uninitialised when the path is empty. When the root has level 1
  the loop of the descent is not entered and the root itself is read as the leaf.
\<close>

definition getPageNoAndOffsetOfKeyInsert ::
  "traits \<Rightarrow> BTreeIndex \<Rightarrow> int \<Rightarrow> bool \<Rightarrow> (BTreeIndex \<times> nat \<times> int \<times> nat \<times> nat) option" where
  "getPageNoAndOffsetOfKeyInsert t s keyValue insertMode = do {
     rootData \<leftarrow> nonLeafAt s (rootPageNum s);
     (s1, lastPage, pathOfTraversal) \<leftarrow>
       descend t keyValue (level rootData) s 1 (rootPageNum s) [];
     dataPage \<leftarrow> leafView t s1 lastPage;
     (i, insertAt) \<leftarrow> leafSlot t dataPage keyValue insertMode 0 (LEAFSIZE t);
     if i = LEAFSIZE t then do {
       (s2, G) \<leftarrow> splitParents t keyValue s1 pathOfTraversal False None;
       G' \<leftarrow> G;
       splitLeaf t keyValue s2 lastPage insertAt G'
     } else Some (unPinPage s1 lastPage, lastPage, int insertAt, i, lastPage)
   }"

section \<open>Insertion: \<open>createRoot\<close> and \<open>insertKeyTemplate\<close>\<close>

definition createRoot :: "traits \<Rightarrow> BTreeIndex \<Rightarrow> BTreeIndex" where
  "createRoot t s =
     unPinPage (writePage s (rootPageNum s) (NonLeafPage ((zeroNonLeaf t)\<lparr>level := 1\<rparr>)))
       (rootPageNum s)"

text \<open>The shift loop \<open>for (int j = endOfRecordsOffset; j > insertAt; j--)\<close> in the leaf.\<close>

function shiftLeaf :: "LeafNode \<Rightarrow> nat \<Rightarrow> nat \<Rightarrow> LeafNode option" where
  "shiftLeaf dataPage j insertAt =
     (if j > insertAt then do {
        r \<leftarrow> get (ridArray dataPage) (j - 1);
        ra \<leftarrow> put (ridArray dataPage) j r;
        k \<leftarrow> get (keyArray dataPage) (j - 1);
        ka \<leftarrow> put (keyArray dataPage) j k;
        shiftLeaf (dataPage\<lparr>keyArray := ka, ridArray := ra\<rparr>) (j - 1) insertAt
      } else Some dataPage)"
  by pat_completeness auto
termination
  by (relation "measure (\<lambda>(d, j, a). j)") auto

declare shiftLeaf.simps [simp del]

text \<open>The bootstrap of an empty root: two new leaves, the key in the right one.\<close>

definition bootstrap :: "traits \<Rightarrow> BTreeIndex \<Rightarrow> NonLeafNode \<Rightarrow> int \<Rightarrow> RecordId \<Rightarrow> BTreeIndex option" where
  "bootstrap t s rootData keyValue rid = do {
     let (s1, lessKey) = allocPage s;
     pa \<leftarrow> put (pageNoArray rootData) 0 lessKey;
     let (s2, greaterKey) = allocPage s1;
     pa \<leftarrow> put pa 1 greaterKey;
     let dataPageLeft = (zeroLeaf t)\<lparr>rightSibPageNo := greaterKey\<rparr>;
     let s3 = unPinPage (writePage s2 lessKey (LeafPage dataPageLeft)) lessKey;
     ka \<leftarrow> put (keyArray (zeroLeaf t)) 0 keyValue;
     ra \<leftarrow> put (ridArray (zeroLeaf t)) 0 rid;
     let dataPageRight = (zeroLeaf t)\<lparr>keyArray := ka, ridArray := ra\<rparr>;
     let s4 = unPinPage (writePage s3 greaterKey (LeafPage dataPageRight)) greaterKey;
     nk \<leftarrow> put (nkeyArray rootData) 0 keyValue;
     let rootData = rootData\<lparr>level := 2, nkeyArray := nk, pageNoArray := pa\<rparr>;
     Some (unPinPage (writePage s4 (rootPageNum s4) (NonLeafPage rootData)) (rootPageNum s4))
   }"

text \<open>The other branch: descent in insert mode, then the shift and the write in the leaf.\<close>

definition insertInLeaf :: "traits \<Rightarrow> BTreeIndex \<Rightarrow> int \<Rightarrow> RecordId \<Rightarrow> BTreeIndex option" where
  "insertInLeaf t s keyValue rid = do {
     (s1, dataPageNum, insertAt, endOfRecordsOffset, dataPageNumPrev) \<leftarrow>
       getPageNoAndOffsetOfKeyInsert t s keyValue True;
     (s2, tempPage) \<leftarrow> readPage s1 dataPageNum;
     dataPage \<leftarrow> leafAt s2 dataPageNum;
     at \<leftarrow> (if insertAt < 0 then None else Some (nat insertAt));
     dataPage \<leftarrow> shiftLeaf dataPage endOfRecordsOffset at;
     ra \<leftarrow> put (ridArray dataPage) at rid;
     ka \<leftarrow> put (keyArray dataPage) at keyValue;
     Some (unPinPage (writePage s2 dataPageNum (LeafPage (dataPage\<lparr>keyArray := ka, ridArray := ra\<rparr>)))
             dataPageNum)
   }"

definition insertKeyTemplate :: "traits \<Rightarrow> BTreeIndex \<Rightarrow> int \<Rightarrow> RecordId \<Rightarrow> BTreeIndex option" where
  "insertKeyTemplate t s keyValue rid = do {
     (s1, rootPage) \<leftarrow> readPage s (rootPageNum s);
     rootData \<leftarrow> nonLeafAt s1 (rootPageNum s1);
     p0 \<leftarrow> get (pageNoArray rootData) 0;
     if p0 = 0 then bootstrap t s1 rootData keyValue rid
     else insertInLeaf t s1 keyValue rid
   }"

section \<open>The scan cursor: \<open>startScanTemplate\<close> and \<open>scanNextTemplate\<close>\<close>

text \<open>
  A scan function returns the new state together with either the exception it throws or
  its result, since a page is unpinned before an exception is thrown.
\<close>

text \<open>The move of the cursor to the right sibling of the leaf \<open>dataPage\<close>:
  unpin the current page, take the sibling's number, read it.\<close>

definition toSibling :: "BTreeIndex \<Rightarrow> LeafNode \<Rightarrow> BTreeIndex option" where
  "toSibling s dataPage = do {
     let s1 = unPinPage (s\<lparr>nextEntry := 0\<rparr>) (currentPageNum s);
     let s2 = s1\<lparr>currentPageNum := rightSibPageNo dataPage\<rparr>;
     (s3, pg) \<leftarrow> readPage s2 (currentPageNum s2);
     Some (s3\<lparr>currentPageData := Some (currentPageNum s2)\<rparr>)
   }"

text \<open>The second half of \<open>scanNextTemplate\<close>: the record id at the cursor is the
  result and the cursor advances, to the right sibling at the end of the leaf.\<close>

definition scanEmit :: "traits \<Rightarrow> BTreeIndex \<Rightarrow> LeafNode \<Rightarrow> BTreeIndex \<times> (error + RecordId)" where
  "scanEmit t s dataPage =
     (case get (ridArray dataPage) (nextEntry s) of
        None \<Rightarrow> (s, Inl Abort)
      | Some outRid \<Rightarrow>
          (let leave =
             (if rightSibPageNo dataPage = 0
              then ((unPinPage (s\<lparr>nextEntry := 0\<rparr>) (currentPageNum s))
                      \<lparr>currentPageNum := 0, currentPageData := None\<rparr>, Inr outRid)
              else (case toSibling s dataPage of
                      None \<Rightarrow> (s, Inl Abort)
                    | Some s' \<Rightarrow> (s', Inr outRid)))
           in if nextEntry s + 1 = LEAFSIZE t then leave
              else (case get (ridArray dataPage) (nextEntry s + 1) of
                      None \<Rightarrow> (s, Inl Abort)
                    | Some r \<Rightarrow>
                        if page_number r = 0 then leave
                        else (s\<lparr>nextEntry := nextEntry s + 1\<rparr>, Inr outRid))))"

definition scanNextTemplate :: "traits \<Rightarrow> BTreeIndex \<Rightarrow> BTreeIndex \<times> (error + RecordId)" where
  "scanNextTemplate t s =
     (case currentPageData s of
        None \<Rightarrow> (s, Inl IndexScanCompletedException)
      | Some p \<Rightarrow>
          (case leafAt s p of
             None \<Rightarrow> (s, Inl Abort)
           | Some dataPage \<Rightarrow>
               if highOp s = LT \<or> highOp s = LTE
               then (case get (keyArray dataPage) (nextEntry s) of
                       None \<Rightarrow> (s, Inl Abort)
                     | Some k \<Rightarrow>
                         if highOp s = LT \<and> k \<ge> highValInt s
                         then (unPinPage s (currentPageNum s), Inl IndexScanCompletedException)
                         else if highOp s = LTE \<and> k > highValInt s
                         then (unPinPage s (currentPageNum s), Inl IndexScanCompletedException)
                         else scanEmit t s dataPage)
               else scanEmit t s dataPage))"

text \<open>
  \<open>startScanTemplate\<close>, called with \<open>lowOp\<close> and \<open>highOp\<close> already stored in the index.
  The pointer \<open>dataPage\<close> is set once, to the frame of the leaf the descent returns, and
  is not set again when the cursor moves to the right sibling: the later tests read the
  keys of that first leaf at the new \<open>nextEntry\<close>. Nothing is done when the descent
  returns two different page numbers.
\<close>

definition startScanTemplate ::
  "traits \<Rightarrow> BTreeIndex \<Rightarrow> int \<Rightarrow> int \<Rightarrow> BTreeIndex \<times> (error + unit)" where
  "startScanTemplate t s0 lowVal highVal =
     (let s = s0\<lparr>lowValInt := lowVal, highValInt := highVal\<rparr> in
      case (do { (s1, rootPage) \<leftarrow> readPage s (rootPageNum s);
                 getPageNoAndOffsetOfKeyInsert t s1 lowVal False }) of
        None \<Rightarrow> (s, Inl Abort)
      | Some (s2, dataPageNum, insertAt, endOfRecordsOffset, dataPageNumPrev) \<Rightarrow>
          if dataPageNumPrev = dataPageNum then
            (case (do { (s3, pg) \<leftarrow> readPage (s2\<lparr>currentPageNum := dataPageNum\<rparr>) dataPageNum;
                        dataPage \<leftarrow> leafView t s3 dataPageNum;
                        at \<leftarrow> (if insertAt < 0 then None else Some (nat insertAt));
                        r \<leftarrow> get (ridArray dataPage) at;
                        Some (s3\<lparr>currentPageData := Some dataPageNum, nextEntry := at\<rparr>, dataPage, r) }) of
               None \<Rightarrow> (s2, Inl Abort)
             | Some (s4, dataPage, r) \<Rightarrow>
                 if page_number r = 0 \<and> rightSibPageNo dataPage = 0
                 then (unPinPage s4 (currentPageNum s4), Inl NoSuchKeyFoundException)
                 else
                   (case (do { s5 \<leftarrow> (if page_number r = 0 then toSibling s4 dataPage else Some s4);
                               k \<leftarrow> (if lowOp s5 = GT then get (keyArray dataPage) (nextEntry s5) else Some 0);
                               s6 \<leftarrow> (if lowOp s5 = GT \<and> k = lowValInt s5
                                       then (if nextEntry s5 + 1 = LEAFSIZE t
                                             then toSibling s5 dataPage
                                             else Some (s5\<lparr>nextEntry := nextEntry s5 + 1\<rparr>))
                                       else Some s5);
                               k' \<leftarrow> get (keyArray dataPage) (nextEntry s6);
                               Some (s6, k') }) of
                      None \<Rightarrow> (s4, Inl Abort)
                    | Some (s6, k') \<Rightarrow>
                        if k' > highValInt s6
                        then (unPinPage s6 (currentPageNum s6), Inl NoSuchKeyFoundException)
                        else if highOp s6 = LT \<and> k' = highValInt s6
                        then (unPinPage s6 (currentPageNum s6), Inl NoSuchKeyFoundException)
                        else (s6, Inr ())))
          else (s2, Inr ()))"

section \<open>The entry points of the index\<close>

text \<open>
  Modelled from the spec: the constructor, \<open>insertEntry\<close>, \<open>startScan\<close>, \<open>scanNext\<close> and
  \<open>endScan\<close> are declared in btree.h and defined in a file that is not part of the
  sources at hand. The spec describes them: a new index file has the meta page as page 1
  and the empty root, made by \<open>createRoot\<close>, as page 2; \<open>insertEntry\<close> runs the inserter
  and, when the root has split, updates \<open>rootPageNo\<close> of the meta page last;
  \<open>startScan\<close> ends an active scan, validates the operators and the range and positions
  the cursor; \<open>scanNext\<close> fails without an active scan; \<open>endScan\<close> unpins the scan page
  and clears the scan state.
\<close>

definition newIndex :: "traits \<Rightarrow> string \<Rightarrow> nat \<Rightarrow> BTreeIndex" where
  "newIndex t relName offset =
     createRoot t
       \<lparr>pages = [FileHeader,
                 MetaPage \<lparr>relationName = relName, attrByteOffset = offset,
                           attrType = INTEGER, rootPageNo = 2\<rparr>,
                 BlankPage],
        bufLog = [Pin 2], headerPageNum = 1, rootPageNum = 2, scanExecuting = False,
        nextEntry = 0, currentPageNum = 0, currentPageData = None,
        lowValInt = 0, highValInt = 0, lowOp = GT, highOp = LT\<rparr>"

definition setMetaRoot :: "BTreeIndex \<Rightarrow> BTreeIndex option" where
  "setMetaRoot s =
     (if headerPageNum s < length (pages s)
      then (case pages s ! headerPageNum s of
              MetaPage m \<Rightarrow>
                Some (writePage s (headerPageNum s) (MetaPage (m\<lparr>rootPageNo := rootPageNum s\<rparr>)))
            | _ \<Rightarrow> None)
      else None)"

definition insertEntry :: "traits \<Rightarrow> BTreeIndex \<Rightarrow> int \<Rightarrow> RecordId \<Rightarrow> BTreeIndex option" where
  "insertEntry t s key rid = do {
     s' \<leftarrow> insertKeyTemplate t s key rid;
     if rootPageNum s' \<noteq> rootPageNum s then setMetaRoot s' else Some s'
   }"

definition endScan :: "BTreeIndex \<Rightarrow> BTreeIndex \<times> (error + unit)" where
  "endScan s =
     (if \<not> scanExecuting s then (s, Inl ScanNotInitializedException)
      else ((case currentPageData s of
               None \<Rightarrow> s
             | Some p \<Rightarrow> unPinPage s (currentPageNum s))
              \<lparr>scanExecuting := False, currentPageData := None, currentPageNum := 0, nextEntry := 0\<rparr>,
            Inr ()))"

definition startScan ::
  "traits \<Rightarrow> BTreeIndex \<Rightarrow> int \<Rightarrow> Operator \<Rightarrow> int \<Rightarrow> Operator \<Rightarrow> BTreeIndex \<times> (error + unit)" where
  "startScan t s0 lowVal lowOpParm highVal highOpParm =
     (let s = (if scanExecuting s0 then fst (endScan s0) else s0) in
      if \<not> ((lowOpParm = GT \<or> lowOpParm = GTE) \<and> (highOpParm = LT \<or> highOpParm = LTE))
      then (s, Inl BadOpcodesException)
      else if lowVal > highVal then (s, Inl BadScanrangeException)
      else (case startScanTemplate t (s\<lparr>lowOp := lowOpParm, highOp := highOpParm\<rparr>) lowVal highVal of
              (s', Inl e) \<Rightarrow> (s', Inl e)
            | (s', Inr u) \<Rightarrow> (s'\<lparr>scanExecuting := True\<rparr>, Inr ())))"

definition scanNext :: "traits \<Rightarrow> BTreeIndex \<Rightarrow> BTreeIndex \<times> (error + RecordId)" where
  "scanNext t s =
     (if \<not> scanExecuting s then (s, Inl ScanNotInitializedException)
      else scanNextTemplate t s)"

text \<open>A run of the index: entries inserted one after the other, and the record ids a
  scan yields until \<open>scanNext\<close> throws (at most \<open>n\<close> calls).\<close>

fun insertAll :: "traits \<Rightarrow> BTreeIndex \<Rightarrow> (int \<times> RecordId) list \<Rightarrow> BTreeIndex option" where
  "insertAll t s [] = Some s"
| "insertAll t s ((k, r) # es) = do { s' \<leftarrow> insertEntry t s k r; insertAll t s' es }"

fun scanAll :: "traits \<Rightarrow> nat \<Rightarrow> BTreeIndex \<Rightarrow> RecordId list \<times> error option" where
  "scanAll t 0 s = ([], None)"
| "scanAll t (Suc n) s =
     (case scanNext t s of
        (s', Inl e) \<Rightarrow> ([], Some e)
      | (s', Inr r) \<Rightarrow> (let (rs, e) = scanAll t n s' in (r # rs, e)))"

section \<open>Observing an index\<close>

definition rootNode :: "BTreeIndex \<Rightarrow> NonLeafNode option" where
  "rootNode s = nonLeafAt s (rootPageNum s)"

text \<open>The number of valid child pointers of a non-leaf node, and its keys: one less than
  it has children.\<close>

definition childCount :: "NonLeafNode \<Rightarrow> nat" where
  "childCount n = length (takeWhile (\<lambda>p. p \<noteq> 0) (pageNoArray n))"

definition nodeKeys :: "NonLeafNode \<Rightarrow> int list" where
  "nodeKeys n = take (childCount n - 1) (nkeyArray n)"

text \<open>The occupied slots of a leaf: those before the first record id with page number 0.\<close>

definition leafEntries :: "LeafNode \<Rightarrow> (int \<times> RecordId) list" where
  "leafEntries l = takeWhile (\<lambda>e. page_number (snd e) \<noteq> 0) (zip (keyArray l) (ridArray l))"

definition leafKeys :: "LeafNode \<Rightarrow> int list" where
  "leafKeys l = map fst (leafEntries l)"

definition indexAfter :: "traits \<Rightarrow> (int \<times> RecordId) list \<Rightarrow> BTreeIndex option" where
  "indexAfter t es = insertAll t (newIndex t ''relA'' 0) es"

text \<open>A scan from \<open>startScan\<close> on: the record ids of at most \<open>n\<close> calls of \<open>scanNext\<close> and
  the exception that ended the scan.\<close>

definition scanFrom ::
  "traits \<Rightarrow> nat \<Rightarrow> int \<Rightarrow> Operator \<Rightarrow> int \<Rightarrow> Operator \<Rightarrow> BTreeIndex \<Rightarrow> RecordId list \<times> error option" where
  "scanFrom t n lowVal lowOpParm highVal highOpParm s =
     (case startScan t s lowVal lowOpParm highVal highOpParm of
        (s', Inl e) \<Rightarrow> ([], Some e)
      | (s', Inr u) \<Rightarrow> scanAll t n s')"

subsection \<open>The concrete scenarios: fan-outs 3 and 3, record id \<open>(key, 1)\<close>\<close>

definition traits33 :: traits where
  "traits33 = \<lparr>LEAFSIZE = 3, NONLEAFSIZE = 3\<rparr>"

definition ridOf :: "int \<Rightarrow> RecordId" where
  "ridOf k = \<lparr>page_number = nat k, slot_number = 1\<rparr>"

definition entriesOf :: "int list \<Rightarrow> (int \<times> RecordId) list" where
  "entriesOf ks = map (\<lambda>k. (k, ridOf k)) ks"

text \<open>The tree shape that scenario 2 of the specification describes: a root of level 2
  with the single key 30 over the leaves \<open>[10,20]\<close> and \<open>[30,40]\<close>, linked left to right.\<close>

definition claimedShape2 :: "BTreeIndex \<Rightarrow> bool" where
  "claimedShape2 s =
     (case rootNode s of
        None \<Rightarrow> False
      | Some r \<Rightarrow>
          level r = 2 \<and> nodeKeys r = [30] \<and>
          (case (leafAt s (pageNoArray r ! 0), leafAt s (pageNoArray r ! 1)) of
             (Some a, Some b) \<Rightarrow>
               leafKeys a = [10, 20] \<and> leafKeys b = [30, 40] \<and>
               rightSibPageNo a = pageNoArray r ! 1
           | _ \<Rightarrow> False))"

subsection \<open>Predicates on leaf slots\<close>

definition occupied :: "RecordId \<Rightarrow> bool" where
  "occupied r = (page_number r \<noteq> 0)"

text \<open>An occupied slot whose key is smaller than the search key.\<close>

definition below :: "int \<Rightarrow> int \<times> RecordId \<Rightarrow> bool" where
  "below keyValue e = (occupied (snd e) \<and> fst e < keyValue)"


text \<open>The right leaf of the bootstrap after the insert of key 7 with fan-outs 3 and 3.\<close>

definition leafWith7 :: LeafNode where
  "leafWith7 = \<lparr>keyArray = [7, 0, 0], ridArray = [ridOf 7, noRid, noRid], rightSibPageNo = 0\<rparr>"

subsection \<open>The state of a scan cursor\<close>

text \<open>The leaf under the cursor, the test of the upper bound on a key, and a cursor that
  stands inside its leaf, whose right sibling (if any) is a page of the file.\<close>

definition cursorLeaf :: "BTreeIndex \<Rightarrow> LeafNode option" where
  "cursorLeaf s = (case currentPageData s of None \<Rightarrow> None | Some p \<Rightarrow> leafAt s p)"

definition upperBoundFails :: "BTreeIndex \<Rightarrow> int \<Rightarrow> bool" where
  "upperBoundFails s k =
     ((highOp s = LT \<and> k \<ge> highValInt s) \<or> (highOp s = LTE \<and> k > highValInt s))"

definition cursorOk :: "traits \<Rightarrow> BTreeIndex \<Rightarrow> LeafNode \<Rightarrow> bool" where
  "cursorOk t s l =
     (nextEntry s < LEAFSIZE t \<and> length (keyArray l) = LEAFSIZE t
      \<and> length (ridArray l) = LEAFSIZE t \<and> rightSibPageNo l < length (pages s))"

text \<open>The index after the inserts of 10, 20, 30, 40 and \<open>startScan (10, GTE, 40, LTE)\<close>.\<close>

definition scanState2 :: BTreeIndex where
  "scanState2 =
     fst (startScan traits33 (the (indexAfter traits33 (entriesOf [10, 20, 30, 40]))) 10 GTE 40 LTE)"

subsection \<open>The descent seen from outside\<close>

text \<open>The leaf that the descent for a key reaches, with its page number: for a caller
  that has read the root (\<open>descentLeaf\<close>), and for the index at rest, where the caller
  first reads the root as both callers of the descent do (\<open>targetLeaf\<close>).\<close>

definition descentLeaf :: "traits \<Rightarrow> BTreeIndex \<Rightarrow> int \<Rightarrow> (nat \<times> LeafNode) option" where
  "descentLeaf t s keyValue = do {
     rootData \<leftarrow> nonLeafAt s (rootPageNum s);
     (s1, lastPage, pathOfTraversal) \<leftarrow>
       descend t keyValue (level rootData) s 1 (rootPageNum s) [];
     l \<leftarrow> leafAt s1 lastPage;
     Some (lastPage, l)
   }"

definition targetLeaf :: "traits \<Rightarrow> BTreeIndex \<Rightarrow> int \<Rightarrow> (nat \<times> LeafNode) option" where
  "targetLeaf t s keyValue = do {
     (s1, rootPage) \<leftarrow> readPage s (rootPageNum s);
     descentLeaf t s1 keyValue
   }"

text \<open>The buffer-manager calls of a walk through the pages \<open>p1, p2, ...\<close>: every page
  is unpinned before the next one is read.\<close>

fun hops :: "nat list \<Rightarrow> BufEvent list" where
  "hops (a # b # ps) = Unpin a # Pin b # hops (b # ps)"
| "hops ps = []"

text \<open>The pages that are pinned after a sequence of calls, each as often as it is
  pinned, when \<open>ps\<close> are pinned before.\<close>

fun pinsAfter :: "nat list \<Rightarrow> BufEvent list \<Rightarrow> nat list" where
  "pinsAfter ps [] = ps"
| "pinsAfter ps (Pin p # es) = pinsAfter (p # ps) es"
| "pinsAfter ps (Unpin p # es) = pinsAfter (remove1 p ps) es"

text \<open>The calls that lead from state \<open>s\<close> to state \<open>s'\<close>.\<close>

definition callsBetween :: "BTreeIndex \<Rightarrow> BTreeIndex \<Rightarrow> BufEvent list" where
  "callsBetween s s' = drop (length (bufLog s)) (bufLog s')"

text \<open>A list with the value \<open>v\<close> inserted at slot \<open>a\<close>, the slots \<open>a\<close> to \<open>i - 1\<close> moved
  right by one, and all other slots as they were.\<close>

definition withSlot :: "'a list \<Rightarrow> nat \<Rightarrow> nat \<Rightarrow> 'a \<Rightarrow> 'a list" where
  "withSlot xs a i v =
     map (\<lambda>n. if n = a then v else if a < n \<and> n \<le> i then xs ! (n - 1) else xs ! n) [0..<length xs]"

text \<open>A list after the shift loop from slot \<open>j\<close> down to slot \<open>a\<close>: the slots
  \<open>a + 1\<close> to \<open>j\<close> hold what the slots \<open>a\<close> to \<open>j - 1\<close> held.\<close>

definition shifted :: "'a list \<Rightarrow> nat \<Rightarrow> nat \<Rightarrow> 'a list" where
  "shifted xs a j = map (\<lambda>n. if a < n \<and> n \<le> j then xs ! (n - 1) else xs ! n) [0..<length xs]"

text \<open>The index after the insert of key 7, and its state once a caller has read the root.\<close>

definition indexWith7 :: BTreeIndex where
  "indexWith7 = the (indexAfter traits33 (entriesOf [7]))"

definition indexWith7Read :: BTreeIndex where
  "indexWith7Read = fst (the (readPage indexWith7 (rootPageNum indexWith7)))"

text \<open>The pages that a descent leaves pinned, for a caller that has pinned the root.\<close>

definition pinsLeft :: "traits \<Rightarrow> BTreeIndex \<Rightarrow> int \<Rightarrow> bool \<Rightarrow> nat list option" where
  "pinsLeft t s keyValue insertMode =
     map_option (\<lambda>r. pinsAfter [rootPageNum s] (callsBetween s (fst r)))
       (getPageNoAndOffsetOfKeyInsert t s keyValue insertMode)"

text \<open>The last clause of the claim about pins, for the root, which is on every path: after
  a descent in insert mode the root is still pinned.\<close>

definition rootStaysPinned :: "traits \<Rightarrow> BTreeIndex \<Rightarrow> int \<Rightarrow> bool" where
  "rootStaysPinned t s keyValue =
     (case pinsLeft t s keyValue True of None \<Rightarrow> False | Some ps \<Rightarrow> rootPageNum s \<in> set ps)"

text \<open>The index after the inserts of 10, 20, 30, whose right leaf is full, and its state
  once a caller has read the root.\<close>

definition indexWith3 :: BTreeIndex where
  "indexWith3 = the (indexAfter traits33 (entriesOf [10, 20, 30]))"

definition indexWith3Read :: BTreeIndex where
  "indexWith3Read = fst (the (readPage indexWith3 (rootPageNum indexWith3)))"

section \<open>Invariants of the tree\<close>

text \<open>Fan-outs for which the splits leave at least one key on each side.\<close>

definition traitsOk :: "traits \<Rightarrow> bool" where
  "traitsOk t = (2 \<le> LEAFSIZE t \<and> 3 \<le> NONLEAFSIZE t)"

text \<open>What a non-leaf node of level \<open>lv\<close> may point to: a leaf when \<open>lv\<close> is 2, a
  non-leaf node of level \<open>lv - 1\<close> otherwise.\<close>

definition childOk :: "nat \<Rightarrow> Page \<Rightarrow> bool" where
  "childOk lv pg = (case pg of LeafPage l \<Rightarrow> lv = 2 | NonLeafPage n \<Rightarrow> lv = level n + 1 | _ \<Rightarrow> False)"

text \<open>A non-leaf node of a tree with data in the file \<open>ps\<close>: arrays of the declared
  sizes, level at least 2, at least two children (one key), and every valid child pointer
  leads to a page of the next lower level.\<close>

definition nodeInv :: "traits \<Rightarrow> Page list \<Rightarrow> NonLeafNode \<Rightarrow> bool" where
  "nodeInv t ps n =
     (length (nkeyArray n) = NONLEAFSIZE t \<and> length (pageNoArray n) = NONLEAFSIZE t + 1
      \<and> 2 \<le> level n \<and> pageNoArray n ! 0 \<noteq> 0 \<and> pageNoArray n ! 1 \<noteq> 0
      \<and> (\<forall>c \<in> set (pageNoArray n). c \<noteq> 0 \<longrightarrow> c < length ps \<and> childOk (level n) (ps ! c)))"

text \<open>A leaf at page \<open>p\<close>: arrays of the declared size and, unless it is the left leaf of
  the bootstrap (page 3), an occupied first slot.\<close>

definition leafInv :: "traits \<Rightarrow> nat \<Rightarrow> LeafNode \<Rightarrow> bool" where
  "leafInv t p l =
     (length (keyArray l) = LEAFSIZE t \<and> length (ridArray l) = LEAFSIZE t
      \<and> (p \<noteq> 3 \<longrightarrow> occupied (ridArray l ! 0)))"

definition pageInv :: "traits \<Rightarrow> Page list \<Rightarrow> nat \<Rightarrow> bool" where
  "pageInv t ps p =
     (case ps ! p of NonLeafPage n \<Rightarrow> nodeInv t ps n | LeafPage l \<Rightarrow> leafInv t p l | _ \<Rightarrow> True)"

text \<open>The cached root is a non-leaf node whose level is greater than the level of every
  other non-leaf node of the file.\<close>

definition rootMax :: "BTreeIndex \<Rightarrow> bool" where
  "rootMax s =
     (\<exists>r. nonLeafAt s (rootPageNum s) = Some r
        \<and> (\<forall>p n. nonLeafAt s p = Some n \<and> p \<noteq> rootPageNum s \<longrightarrow> level n < level r))"

text \<open>The meta page is page 1.\<close>

definition metaAt :: "BTreeIndex \<Rightarrow> IndexMetaInfo option" where
  "metaAt s =
     (if headerPageNum s < length (pages s)
      then (case pages s ! headerPageNum s of MetaPage m \<Rightarrow> Some m | _ \<Rightarrow> None)
      else None)"

text \<open>An index with data, and an index before the first insert.\<close>

definition grown :: "traits \<Rightarrow> BTreeIndex \<Rightarrow> bool" where
  "grown t s =
     (4 < length (pages s) \<and> headerPageNum s = 1 \<and> metaAt s \<noteq> None
      \<and> (\<forall>p < length (pages s). pageInv t (pages s) p) \<and> rootMax s)"

definition fresh :: "traits \<Rightarrow> BTreeIndex \<Rightarrow> bool" where
  "fresh t s =
     (length (pages s) = 3 \<and> headerPageNum s = 1 \<and> metaAt s \<noteq> None \<and> rootPageNum s = 2
      \<and> pages s ! 0 = FileHeader
      \<and> pages s ! 2 = NonLeafPage ((zeroNonLeaf t)\<lparr>level := 1\<rparr>))"

definition metaOk :: "BTreeIndex \<Rightarrow> bool" where
  "metaOk s = (map_option rootPageNo (metaAt s) = Some (rootPageNum s))"

definition indexInv :: "traits \<Rightarrow> BTreeIndex \<Rightarrow> bool" where
  "indexInv t s = ((fresh t s \<or> grown t s) \<and> metaOk s)"

text \<open>The path that the descent records, seen from the page \<open>child\<close> upwards: each entry
  \<open>(i, p)\<close> is a non-leaf node \<open>p\<close> of the next level whose pointer \<open>i\<close> is the page below
  and whose pointers 1 to \<open>i\<close> are valid; the path ends at the root.\<close>

fun pathOk :: "traits \<Rightarrow> BTreeIndex \<Rightarrow> nat \<Rightarrow> nat \<Rightarrow> (nat \<times> nat) list \<Rightarrow> bool" where
  "pathOk t s child lv [] = (child = rootPageNum s)"
| "pathOk t s child lv ((i, p) # rest) =
     (\<exists>n. nonLeafAt s p = Some n \<and> level n = lv \<and> i \<le> NONLEAFSIZE t
         \<and> pageNoArray n ! i = child \<and> child \<noteq> 0
         \<and> (\<forall>j. 1 \<le> j \<and> j \<le> i \<longrightarrow> pageNoArray n ! j \<noteq> 0)
         \<and> pathOk t s p (lv + 1) rest)"

text \<open>A file \<open>ps'\<close> extends a file \<open>ps\<close> and keeps the kind and level of its pages.\<close>

definition extends :: "Page list \<Rightarrow> Page list \<Rightarrow> bool" where
  "extends ps ps' =
     (length ps \<le> length ps' \<and> (\<forall>c < length ps. \<forall>lv. childOk lv (ps ! c) \<longrightarrow> childOk lv (ps' ! c)))"

text \<open>The states an index goes through: a new index, then inserts of entries with valid
  record ids.\<close>

inductive reachable :: "traits \<Rightarrow> BTreeIndex \<Rightarrow> bool" for t :: traits where
  init: "reachable t (newIndex t relName offset)"
| step: "reachable t s \<Longrightarrow> occupied rid \<Longrightarrow> insertEntry t s key rid = Some s' \<Longrightarrow> reachable t s'"

text \<open>Following child pointers from a page: the page reached through the pointers
  \<open>cs\<close>, if every step leads from a non-leaf node through a valid pointer.\<close>

fun walk :: "BTreeIndex \<Rightarrow> nat \<Rightarrow> nat list \<Rightarrow> nat option" where
  "walk s p [] = Some p"
| "walk s p (c # cs) =
     (case nonLeafAt s p of
        None \<Rightarrow> None
      | Some n \<Rightarrow>
          (case get (pageNoArray n) c of
             None \<Rightarrow> None
           | Some q \<Rightarrow> if q = 0 then None else walk s q cs))"

text \<open>The index after the inserts of 10 to 60, in which the root has split: the root is
  page 8, of level 3.\<close>

definition indexWith6 :: BTreeIndex where
  "indexWith6 = the (indexAfter traits33 (entriesOf [10, 20, 30, 40, 50, 60]))"

text \<open>The rule for levels as the specification words it, for every non-leaf node of the
  file: the level is 1 exactly when the children are leaves.\<close>

definition claimedLevelRule :: "BTreeIndex \<Rightarrow> bool" where
  "claimedLevelRule s =
     list_all (\<lambda>pg. case pg of
                  NonLeafPage n \<Rightarrow>
                    (level n = 1) = (\<forall>c \<in> set (pageNoArray n). c \<noteq> 0 \<longrightarrow> leafAt s c \<noteq> None)
                | _ \<Rightarrow> True) (pages s)"

text \<open>The occupancy as the specification words it, for every node of the file: at least
  one key in every non-leaf node, at least one entry in every leaf.\<close>

definition claimedOccupancy :: "BTreeIndex \<Rightarrow> bool" where
  "claimedOccupancy s =
     list_all (\<lambda>pg. case pg of
                  NonLeafPage n \<Rightarrow> nodeKeys n \<noteq> []
                | LeafPage l \<Rightarrow> leafEntries l \<noteq> []
                | _ \<Rightarrow> True) (pages s)"


text \<open>The parent of the leaf that the descent reaches, as the descent records it at the
  back of its path: the page number of the parent, the slot of its pointer to the leaf, and
  the node.\<close>

definition descentParent :: "traits \<Rightarrow> BTreeIndex \<Rightarrow> int \<Rightarrow> (nat \<times> nat \<times> NonLeafNode) option" where
  "descentParent t s keyValue = do {
     rootData \<leftarrow> nonLeafAt s (rootPageNum s);
     (s1, lastPage, pathOfTraversal) \<leftarrow>
       descend t keyValue (level rootData) s 1 (rootPageNum s) [];
     (case pathOfTraversal of
        [] \<Rightarrow> None
      | (offset, parentPageId) # rest \<Rightarrow>
          map_option (\<lambda>n. (parentPageId, offset, n)) (nonLeafAt s1 parentPageId))
   }"

text \<open>The index after the inserts of 10 to 50, in which the root, of level 2, is full; its
  state once a caller has read the root; the full leaf that holds 30, 40, 50; and the state
  after the descent in insert mode for key 60.\<close>

definition indexWith5 :: BTreeIndex where
  "indexWith5 = the (indexAfter traits33 (entriesOf [10, 20, 30, 40, 50]))"

definition indexWith5Read :: BTreeIndex where
  "indexWith5Read = fst (the (readPage indexWith5 (rootPageNum indexWith5)))"

definition leaf5 :: LeafNode where
  "leaf5 = \<lparr>keyArray = [30, 40, 50], ridArray = [ridOf 30, ridOf 40, ridOf 50], rightSibPageNo = 0\<rparr>"

definition afterSplit5 :: BTreeIndex where
  "afterSplit5 = fst (the (getPageNoAndOffsetOfKeyInsert traits33 indexWith5Read 60 True))"

text \<open>The first clause of the claim about pins: during the descent for a key, for a caller
  that has pinned the root, at most two pages are pinned after every call to the buffer
  manager.\<close>

definition atMostTwoPinned :: "traits \<Rightarrow> BTreeIndex \<Rightarrow> int \<Rightarrow> bool \<Rightarrow> bool" where
  "atMostTwoPinned t s keyValue insertMode =
     (case getPageNoAndOffsetOfKeyInsert t s keyValue insertMode of
        None \<Rightarrow> True
      | Some r \<Rightarrow>
          list_all (\<lambda>i. length (pinsAfter [rootPageNum s] (take i (callsBetween s (fst r)))) \<le> 2)
            [0..<Suc (length (callsBetween s (fst r)))])"

section \<open>Basic facts about arrays, pages and the buffer manager\<close>

lemma get_Some_iff: "get xs i = Some v \<longleftrightarrow> i < length xs \<and> v = xs ! i"
  by (auto simp: get_def)

lemma put_Some_iff: "put xs i v = Some ys \<longleftrightarrow> i < length xs \<and> ys = xs[i := v]"
  by (auto simp: put_def)

lemma get_in: "i < length xs \<Longrightarrow> get xs i = Some (xs ! i)"
  by (simp add: get_def)

lemma put_in: "i < length xs \<Longrightarrow> put xs i v = Some (xs[i := v])"
  by (simp add: put_def)

lemma readPage_Some:
  "readPage s p = Some (s', pg) \<longleftrightarrow>
     0 < p \<and> p < length (pages s) \<and> s' = s\<lparr>bufLog := bufLog s @ [Pin p]\<rparr> \<and> pg = pages s ! p"
  by (auto simp: readPage_def)

lemma leafAt_bufLog [simp]: "leafAt (s\<lparr>bufLog := b\<rparr>) p = leafAt s p"
  by (simp add: leafAt_def)

lemma nonLeafAt_bufLog [simp]: "nonLeafAt (s\<lparr>bufLog := b\<rparr>) p = nonLeafAt s p"
  by (simp add: nonLeafAt_def)

lemma leafAt_Some: "leafAt s p = Some l \<longleftrightarrow> p < length (pages s) \<and> pages s ! p = LeafPage l"
  by (auto simp: leafAt_def split: Page.splits)

lemma nonLeafAt_Some:
  "nonLeafAt s p = Some n \<longleftrightarrow> p < length (pages s) \<and> pages s ! p = NonLeafPage n"
  by (auto simp: nonLeafAt_def split: Page.splits)

lemma same_but_log:
  assumes "s' = s\<lparr>bufLog := b\<rparr>"
  shows "pages s' = pages s" "rootPageNum s' = rootPageNum s" "headerPageNum s' = headerPageNum s"
    "leafAt s' p = leafAt s p" "nonLeafAt s' p = nonLeafAt s p"
  using assms by simp_all


lemma leafView_bufLog [simp]: "leafView t (s\<lparr>bufLog := b\<rparr>) p = leafView t s p"
  by (simp add: leafView_def)

lemma leafView_leaf: "leafAt s p = Some l \<Longrightarrow> leafView t s p = Some l"
  by (simp add: leafAt_Some leafView_def)

lemma leafView_Some:
  "leafView t s p = Some l \<Longrightarrow>
   leafAt s p = Some l
   \<or> (\<exists>n. nonLeafAt s p = Some n \<and> n = (zeroNonLeaf t)\<lparr>level := level n\<rparr>
          \<and> l = (zeroLeaf t)\<lparr>keyArray := (keyArray (zeroLeaf t))[0 := int (level n)]\<rparr>)"
  by (auto simp: leafView_def leafAt_Some nonLeafAt_Some put_Some_iff split: if_splits Page.splits)

section \<open>Scenario 2: four ascending keys\<close>

text \<open>
  C2, as the specification states it, fails on the tree shape: after the inserts of 10,
  20, 30, 40 the tree is not the two-leaf tree under the single root key 30.
\<close>

theorem C2_shape_counterexample:
  "map_option claimedShape2 (indexAfter traits33 (entriesOf [10, 20, 30, 40])) = Some False"
  by code_simp

text \<open>
  C2 (amended): with fan-outs 3 and 3, the inserts of 10, 20, 30, 40 with record ids
  (key, 1) into a fresh index succeed; the scan (10, GTE, 40, LTE) yields (10,1), (20,1),
  (30,1), (40,1) in that order and then IndexScanCompleted; the root stays page 2 at
  level 2 and holds the keys 10 and 20 over three leaves: the empty left leaf of the
  bootstrap (page 3), the leaf [10] (page 4) and the leaf [20,30,40] (page 5), linked
  3 to 4 to 5.
\<close>

theorem C2_scenario:
  "map_option (scanFrom traits33 5 10 GTE 40 LTE) (indexAfter traits33 (entriesOf [10, 20, 30, 40]))
     = Some ([ridOf 10, ridOf 20, ridOf 30, ridOf 40], Some IndexScanCompletedException)
   \<and> map_option rootPageNum (indexAfter traits33 (entriesOf [10, 20, 30, 40])) = Some 2
   \<and> Option.bind (indexAfter traits33 (entriesOf [10, 20, 30, 40])) rootNode
     = Some \<lparr>level = 2, nkeyArray = [10, 20, 0], pageNoArray = [3, 4, 5, 0]\<rparr>
   \<and> map_option (\<lambda>s. map (map_option (\<lambda>l. (leafEntries l, rightSibPageNo l)) \<circ> leafAt s) [3, 4, 5])
        (indexAfter traits33 (entriesOf [10, 20, 30, 40]))
     = Some [Some ([], 4), Some ([(10, ridOf 10)], 5),
             Some ([(20, ridOf 20), (30, ridOf 30), (40, ridOf 40)], 0)]"
  by code_simp

section \<open>Positioning inside a leaf\<close>

lemma leafSlot_set:
  "length (ridArray l) = LEAFSIZE t \<Longrightarrow> length (keyArray l) = LEAFSIZE t \<Longrightarrow>
   i \<le> LEAFSIZE t \<Longrightarrow> a \<noteq> LEAFSIZE t \<Longrightarrow>
   leafSlot t l key True i a = Some (i + length (takeWhile occupied (drop i (ridArray l))), a)"
proof (induction t l key True i a rule: leafSlot.induct)
  case (1 t dataPage keyValue i insertAt)
  show ?case
  proof (cases "i < LEAFSIZE t")
    case False
    with 1 show ?thesis
      by (subst leafSlot.simps) simp
  next
    case True
    then have d: "drop i (ridArray dataPage) = ridArray dataPage ! i # drop (Suc i) (ridArray dataPage)"
      using 1 by (simp add: Cons_nth_drop_Suc)
    show ?thesis
      using True 1 d
      by (subst leafSlot.simps) (auto simp: get_in occupied_def)
  qed
qed

lemma leafSlot_insert_mode:
  "length (ridArray l) = LEAFSIZE t \<Longrightarrow> length (keyArray l) = LEAFSIZE t \<Longrightarrow>
   i \<le> LEAFSIZE t \<Longrightarrow> a = LEAFSIZE t \<Longrightarrow>
   leafSlot t l key True i a =
     Some (i + length (takeWhile occupied (drop i (ridArray l))),
           i + length (takeWhile (below key) (drop i (zip (keyArray l) (ridArray l)))))"
proof (induction t l key True i a rule: leafSlot.induct)
  case (1 t dataPage keyValue i insertAt)
  show ?case
  proof (cases "i < LEAFSIZE t")
    case False
    with 1 show ?thesis
      by (subst leafSlot.simps) simp
  next
    case True
    then have d: "drop i (ridArray dataPage) = ridArray dataPage ! i # drop (Suc i) (ridArray dataPage)"
      using 1 by (simp add: Cons_nth_drop_Suc)
    have z: "drop i (zip (keyArray dataPage) (ridArray dataPage))
           = (keyArray dataPage ! i, ridArray dataPage ! i)
               # drop (Suc i) (zip (keyArray dataPage) (ridArray dataPage))"
      using True 1 by (simp add: Cons_nth_drop_Suc [symmetric])
    show ?thesis
      using True 1 d z
      by (subst leafSlot.simps) (auto simp: get_in occupied_def below_def leafSlot_set)
  qed
qed

lemma leafSlot_read_mode:
  "length (ridArray l) = LEAFSIZE t \<Longrightarrow> length (keyArray l) = LEAFSIZE t \<Longrightarrow>
   i \<le> LEAFSIZE t \<Longrightarrow> a = LEAFSIZE t \<Longrightarrow>
   leafSlot t l key False i a =
     Some (i + length (takeWhile (below key) (drop i (zip (keyArray l) (ridArray l)))),
           i + length (takeWhile (below key) (drop i (zip (keyArray l) (ridArray l)))))"
proof (induction t l key False i a rule: leafSlot.induct)
  case (1 t dataPage keyValue i insertAt)
  show ?case
  proof (cases "i < LEAFSIZE t")
    case False
    with 1 show ?thesis
      by (subst leafSlot.simps) simp
  next
    case True
    have z: "drop i (zip (keyArray dataPage) (ridArray dataPage))
           = (keyArray dataPage ! i, ridArray dataPage ! i)
               # drop (Suc i) (zip (keyArray dataPage) (ridArray dataPage))"
      using True 1 by (simp add: Cons_nth_drop_Suc [symmetric])
    show ?thesis
      using True 1 z
      by (subst leafSlot.simps) (auto simp: get_in occupied_def below_def)
  qed
qed

section \<open>\<open>scanNext\<close>\<close>

lemma scanEmit_result:
  assumes "cursorOk t s l"
  shows "snd (scanEmit t s l) = Inr (ridArray l ! nextEntry s)"
  using assms
  by (auto simp: scanEmit_def cursorOk_def get_def toSibling_def readPage_def unPinPage_def Let_def
           split: option.splits)

text \<open>
  C9: on an active scan whose cursor stands inside a leaf, \<open>scanNext\<close> throws
  IndexScanCompleted exactly when the page handle is null or the key at the cursor fails
  the upper bound; when the bound fails, the state it leaves is the one after unpinning
  the current page; otherwise it returns the record id at the cursor.
\<close>

theorem C9_scanNext:
  assumes "scanExecuting s"
    and "currentPageData s \<noteq> None \<Longrightarrow> cursorLeaf s = Some l \<and> cursorOk t s l"
  shows "(snd (scanNext t s) = Inl IndexScanCompletedException
            \<longleftrightarrow> currentPageData s = None \<or> upperBoundFails s (keyArray l ! nextEntry s))
       \<and> (currentPageData s \<noteq> None \<and> upperBoundFails s (keyArray l ! nextEntry s)
            \<longrightarrow> scanNext t s = (unPinPage s (currentPageNum s), Inl IndexScanCompletedException))
       \<and> (currentPageData s \<noteq> None \<and> \<not> upperBoundFails s (keyArray l ! nextEntry s)
            \<longrightarrow> snd (scanNext t s) = Inr (ridArray l ! nextEntry s))"
proof (cases "currentPageData s")
  case None
  with assms(1) show ?thesis
    by (simp add: scanNext_def scanNextTemplate_def)
next
  case (Some p)
  with assms(2) have l: "leafAt s p = Some l" and ok: "cursorOk t s l"
    by (simp_all add: cursorLeaf_def)
  have k: "get (keyArray l) (nextEntry s) = Some (keyArray l ! nextEntry s)"
    using ok by (simp add: cursorOk_def get_def)
  show ?thesis
  proof (cases "upperBoundFails s (keyArray l ! nextEntry s)")
    case True
    then show ?thesis
      using assms(1) Some l k
      by (auto simp: scanNext_def scanNextTemplate_def upperBoundFails_def)
  next
    case False
    then show ?thesis
      using assms(1) Some l k scanEmit_result [OF ok]
      by (auto simp: scanNext_def scanNextTemplate_def upperBoundFails_def)
  qed
qed

lemma scanState2_facts:
  "scanExecuting scanState2"
  "currentPageData scanState2 = Some 4"
  "cursorLeaf scanState2
     = Some \<lparr>keyArray = [10, 0, 0], ridArray = [ridOf 10, noRid, noRid], rightSibPageNo = 5\<rparr>"
  "nextEntry scanState2 = 0"
  "length (pages scanState2) = 6"
  "highOp scanState2 = LTE"
  "highValInt scanState2 = 40"
  by code_simp+

theorem C9_scanNext_witness:
  "scanExecuting scanState2 \<and> currentPageData scanState2 \<noteq> None
   \<and> snd (scanNext traits33 scanState2) = Inr (ridOf 10)
   \<and> snd (scanNext traits33 scanState2) \<noteq> Inl IndexScanCompletedException"
proof -
  let ?l = "\<lparr>keyArray = [10, 0, 0], ridArray = [ridOf 10, noRid, noRid], rightSibPageNo = 5\<rparr>"
  have a: "scanExecuting scanState2"
    by (rule scanState2_facts)
  have b: "currentPageData scanState2 \<noteq> None \<Longrightarrow> cursorLeaf scanState2 = Some ?l \<and> cursorOk traits33 scanState2 ?l"
    by (simp add: scanState2_facts cursorOk_def traits33_def)
  have c: "\<not> upperBoundFails scanState2 (keyArray ?l ! nextEntry scanState2)"
    by (simp add: scanState2_facts upperBoundFails_def)
  show ?thesis
    using a c C9_scanNext [OF a b]
    by (simp add: scanState2_facts)
qed

section \<open>The descent changes no page\<close>

lemma descend_frame:
  "descend t k lvl s d lp path = Some (s', leaf, path') \<Longrightarrow>
   \<exists>q. path' = q @ path \<and> hd (rev (map snd q) @ [leaf]) = lp
       \<and> s' = s\<lparr>bufLog := bufLog s @ hops (rev (map snd q) @ [leaf])\<rparr>"
proof (induction t k lvl s d lp path rule: descend.induct)
  case (1 t keyValue rootLevel s depth lastPage pathOfTraversal)
  show ?case
  proof (cases "depth < rootLevel")
    case False
    with "1.prems" have "s' = s" "leaf = lastPage" "path' = pathOfTraversal"
      by (simp_all add: descend.simps)
    then show ?thesis by simp
  next
    case True
    from "1.prems" True obtain currPage k0 i child s1 tempPage where
      a: "nonLeafAt s lastPage = Some currPage"
      and b: "get (nkeyArray currPage) 0 = Some k0"
      and c: "(if keyValue < k0 then Some 0 else nonLeafSlot t currPage keyValue 0) = Some i"
      and d: "get (pageNoArray currPage) i = Some child"
      and e: "readPage (unPinPage s lastPage) child = Some (s1, tempPage)"
      and f: "descend t keyValue rootLevel s1 (depth + 1) child ((i, lastPage) # pathOfTraversal)
                = Some (s', leaf, path')"
      by (subst (asm) descend.simps) (auto simp: bind_eq_Some_conv)
    from "1.IH" [OF True a b c d e refl f] obtain q where
      q: "path' = q @ (i, lastPage) # pathOfTraversal"
         "hd (rev (map snd q) @ [leaf]) = child"
         "s' = s1\<lparr>bufLog := bufLog s1 @ hops (rev (map snd q) @ [leaf])\<rparr>"
      by blast
    have s1: "s1 = s\<lparr>bufLog := bufLog s @ [Unpin lastPage, Pin child]\<rparr>"
      using e by (auto simp: readPage_def unPinPage_def split: if_splits)
    obtain x xs where x: "rev (map snd q) @ [leaf] = x # xs"
      by (cases "rev (map snd q) @ [leaf]") auto
    with q(2) have "x = child" by simp
    with x have h: "hops (lastPage # rev (map snd q) @ [leaf]) = Unpin lastPage # Pin child # hops (rev (map snd q) @ [leaf])"
      by simp
    show ?thesis
      apply (rule exI [of _ "q @ [(i, lastPage)]"])
      using q s1 h by simp
  qed
qed

section \<open>Insertion into a leaf with free space\<close>

lemma shifted_step:
  "a < j \<Longrightarrow> j < length xs \<Longrightarrow>
   shifted (xs[j := xs ! (j - Suc 0)]) a (j - Suc 0) = shifted xs a j"
  by (auto simp: shifted_def nth_list_update)

lemma shifted_same: "shifted xs a a = xs"
  by (rule nth_equalityI) (auto simp: shifted_def)

lemma shifted_put: "a \<le> length xs \<Longrightarrow> (shifted xs a j)[a := v] = withSlot xs a j v"
  by (auto simp: shifted_def withSlot_def nth_list_update intro!: nth_equalityI)

lemma length_shifted [simp]: "length (shifted xs a j) = length xs"
  by (simp add: shifted_def)

lemma shiftLeaf_result:
  "a \<le> j \<Longrightarrow> j < length (keyArray l) \<Longrightarrow> j < length (ridArray l) \<Longrightarrow>
   shiftLeaf l j a
     = Some (l\<lparr>keyArray := shifted (keyArray l) a j, ridArray := shifted (ridArray l) a j\<rparr>)"
proof (induction l j a rule: shiftLeaf.induct)
  case (1 dataPage j insertAt)
  show ?case
  proof (cases "j > insertAt")
    case False
    with "1.prems" show ?thesis
      by (subst shiftLeaf.simps) (simp add: shifted_same)
  next
    case True
    let ?ra = "(ridArray dataPage)[j := ridArray dataPage ! (j - 1)]"
    let ?ka = "(keyArray dataPage)[j := keyArray dataPage ! (j - 1)]"
    have ih: "shiftLeaf (dataPage\<lparr>keyArray := ?ka, ridArray := ?ra\<rparr>) (j - 1) insertAt
             = Some (dataPage\<lparr>keyArray := shifted ?ka insertAt (j - 1),
                               ridArray := shifted ?ra insertAt (j - 1)\<rparr>)"
      using "1.IH" [OF True, of "ridArray dataPage ! (j - 1)" ?ra "keyArray dataPage ! (j - 1)" ?ka]
        True "1.prems"
      by (simp add: get_def put_def)
    show ?thesis
      using True "1.prems" ih
      by (subst shiftLeaf.simps) (auto simp: get_def put_def shifted_step)
  qed
qed


lemma takeWhile_below_le:
  "length (takeWhile (below key) (zip ks rs)) \<le> length (takeWhile occupied rs)"
  by (induction rs arbitrary: ks) (auto simp: below_def zip_Cons split: list.splits)

lemma takeWhile_length_le: "length (takeWhile P xs) \<le> length xs"
  by (induction xs) auto

text \<open>
  C10: when the tree is not empty and the leaf that the descent reaches has a free slot,
  \<open>insertEntry\<close> changes no page but that leaf, and no field of the index but the log of
  buffer-manager calls; in the leaf the new entry stands at the insert slot, the entries
  from the insert slot to the old end of the records have moved right by one, and all
  other slots and the sibling pointer are as before.
\<close>

theorem C10_frame:
  assumes ins: "insertEntry t s key rid = Some s'"
    and root: "rootNode s = Some r" and nonempty: "pageNoArray r ! 0 \<noteq> 0"
    and target: "targetLeaf t s key = Some (p, l)"
    and sizes: "length (keyArray l) = LEAFSIZE t" "length (ridArray l) = LEAFSIZE t"
    and free: "length (takeWhile occupied (ridArray l)) < LEAFSIZE t"
  shows "s' = s\<lparr>pages := (pages s)[p := LeafPage
                  (l\<lparr>keyArray := withSlot (keyArray l)
                                    (length (takeWhile (below key) (zip (keyArray l) (ridArray l))))
                                    (length (takeWhile occupied (ridArray l))) key,
                     ridArray := withSlot (ridArray l)
                                    (length (takeWhile (below key) (zip (keyArray l) (ridArray l))))
                                    (length (takeWhile occupied (ridArray l))) rid\<rparr>)],
               bufLog := bufLog s'\<rparr>"
proof -
  let ?a = "length (takeWhile (below key) (zip (keyArray l) (ridArray l)))"
  let ?i = "length (takeWhile occupied (ridArray l))"
  from ins obtain s0 where ik: "insertKeyTemplate t s key rid = Some s0"
    and fin: "(if rootPageNum s0 \<noteq> rootPageNum s then setMetaRoot s0 else Some s0) = Some s'"
    by (auto simp: insertEntry_def bind_eq_Some_conv)
  from target obtain s1 rootPage where rd: "readPage s (rootPageNum s) = Some (s1, rootPage)"
    and dl: "descentLeaf t s1 key = Some (p, l)"
    by (auto simp: targetLeaf_def bind_eq_Some_conv)
  have s1: "s1 = s\<lparr>bufLog := bufLog s @ [Pin (rootPageNum s)]\<rparr>"
    using rd by (simp add: readPage_Some)
  from dl obtain rootData sd path where rn: "nonLeafAt s1 (rootPageNum s1) = Some rootData"
    and de: "descend t key (level rootData) s1 1 (rootPageNum s1) [] = Some (sd, p, path)"
    and lf: "leafAt sd p = Some l"
    by (auto simp: descentLeaf_def bind_eq_Some_conv)
  from descend_frame [OF de] obtain evs where sd: "sd = s1\<lparr>bufLog := bufLog s1 @ evs\<rparr>"
    by blast
  have rr: "rootData = r"
    using root rn s1 by (simp add: rootNode_def)
  from ik rd rn obtain p0 where p0: "get (pageNoArray rootData) 0 = Some p0"
    and br: "(if p0 = 0 then bootstrap t s1 rootData key rid else insertInLeaf t s1 key rid) = Some s0"
    by (auto simp: insertKeyTemplate_def bind_eq_Some_conv)
  from p0 rr nonempty have "p0 \<noteq> 0"
    by (simp add: get_Some_iff)
  with br have il: "insertInLeaf t s1 key rid = Some s0" by simp
  have ai: "?a \<le> ?i"
    by (rule takeWhile_below_le)
  have ls: "leafSlot t l key True 0 (LEAFSIZE t) = Some (?i, ?a)"
    using leafSlot_insert_mode [OF sizes(2) sizes(1), of 0 "LEAFSIZE t" key] by simp
  have gp: "getPageNoAndOffsetOfKeyInsert t s1 key True = Some (unPinPage sd p, p, int ?a, ?i, p)"
    using rn de leafView_leaf [OF lf, of t] ls free by (simp add: getPageNoAndOffsetOfKeyInsert_def)
  have lp: "leafAt s p = Some l"
    using lf sd s1 by simp
  then have pl: "p < length (pages s)" "pages s ! p = LeafPage l"
    by (simp_all add: leafAt_Some)
  from il gp obtain s2 tempPage where r2: "readPage (unPinPage sd p) p = Some (s2, tempPage)"
    by (auto simp: insertInLeaf_def bind_eq_Some_conv)
  obtain b2 where s2: "s2 = s\<lparr>bufLog := b2\<rparr>"
    using r2 sd s1 by (simp add: readPage_Some unPinPage_def)
  have l2: "leafAt s2 p = Some l"
    using lp by (simp add: s2)
  have sh: "shiftLeaf l ?i ?a
     = Some (l\<lparr>keyArray := shifted (keyArray l) ?a ?i, ridArray := shifted (ridArray l) ?a ?i\<rparr>)"
    using ai free sizes by (intro shiftLeaf_result) simp_all
  have s0: "s0 = unPinPage (writePage s2 p (LeafPage
                  (l\<lparr>keyArray := withSlot (keyArray l) ?a ?i key,
                     ridArray := withSlot (ridArray l) ?a ?i rid\<rparr>))) p"
    using il gp r2 l2 sh ai free sizes
    by (simp add: insertInLeaf_def put_def shifted_put)
  have "rootPageNum s0 = rootPageNum s"
    by (simp add: s0 s2 unPinPage_def writePage_def)
  with fin have "s' = s0" by simp
  then show ?thesis
    by (simp add: s0 s2 unPinPage_def writePage_def)
qed

theorem C10_frame_witness:
  "insertEntry traits33 indexWith7 7 \<lparr>page_number = 8, slot_number = 1\<rparr> \<noteq> None
   \<and> targetLeaf traits33 indexWith7 7 = Some (4, leafWith7)
   \<and> length (takeWhile occupied (ridArray leafWith7)) < LEAFSIZE traits33
   \<and> pages (the (insertEntry traits33 indexWith7 7 \<lparr>page_number = 8, slot_number = 1\<rparr>))
       = (pages indexWith7)[4 := LeafPage
            \<lparr>keyArray = [7, 7, 0],
             ridArray = [\<lparr>page_number = 8, slot_number = 1\<rparr>, ridOf 7, noRid],
             rightSibPageNo = 0\<rparr>]"
proof -
  let ?rid = "\<lparr>page_number = 8, slot_number = 1\<rparr>"
  let ?s' = "the (insertEntry traits33 indexWith7 7 ?rid)"
  let ?r = "\<lparr>level = 2, nkeyArray = [7, 0, 0], pageNoArray = [3, 4, 0, 0]\<rparr>"
  have ins: "insertEntry traits33 indexWith7 7 ?rid = Some ?s'"
    by code_simp
  have root: "rootNode indexWith7 = Some ?r"
    by code_simp
  have ne: "pageNoArray ?r ! 0 \<noteq> 0"
    by simp
  have tgt: "targetLeaf traits33 indexWith7 7 = Some (4, leafWith7)"
    by code_simp
  have sz: "length (keyArray leafWith7) = LEAFSIZE traits33"
    "length (ridArray leafWith7) = LEAFSIZE traits33"
    by (simp_all add: leafWith7_def traits33_def)
  have free: "length (takeWhile occupied (ridArray leafWith7)) < LEAFSIZE traits33"
    by code_simp
  have w: "withSlot (keyArray leafWith7)
             (length (takeWhile (below 7) (zip (keyArray leafWith7) (ridArray leafWith7))))
             (length (takeWhile occupied (ridArray leafWith7))) 7 = [7, 7, 0]"
    "withSlot (ridArray leafWith7)
             (length (takeWhile (below 7) (zip (keyArray leafWith7) (ridArray leafWith7))))
             (length (takeWhile occupied (ridArray leafWith7))) ?rid = [?rid, ridOf 7, noRid]"
    by code_simp+
  have ne': "insertEntry traits33 indexWith7 7 ?rid \<noteq> None"
    by code_simp
  have pg: "pages ?s' = (pages indexWith7)[4 := LeafPage
            \<lparr>keyArray = [7, 7, 0], ridArray = [?rid, ridOf 7, noRid], rightSibPageNo = 0\<rparr>]"
    using arg_cong [OF C10_frame [OF ins root ne tgt sz free, unfolded w], of pages]
    by (simp add: leafWith7_def)
  show ?thesis
    by (intro conjI ne' tgt free pg)
qed

section \<open>The loops of the splitter in closed form\<close>

lemma firstInvalid_result:
  "k \<le> NONLEAFSIZE t + 1 \<Longrightarrow> length arr = NONLEAFSIZE t + 1 \<Longrightarrow>
   firstInvalid t arr k = Some (k + length (takeWhile (\<lambda>p. p \<noteq> 0) (drop k arr)))"
proof (induction t arr k rule: firstInvalid.induct)
  case (1 t arr k)
  show ?case
  proof (cases "k \<le> NONLEAFSIZE t")
    case False
    with "1.prems" show ?thesis
      by (subst firstInvalid.simps) simp
  next
    case True
    then have d: "drop k arr = arr ! k # drop (Suc k) arr"
      using "1.prems" by (simp add: Cons_nth_drop_Suc)
    show ?thesis
      using True "1.prems" d "1.IH" [OF True, of "arr ! k"]
      by (subst firstInvalid.simps) (auto simp: get_def)
  qed
qed

lemma firstInvalid_Some:
  assumes "firstInvalid t arr offset = Some k" "length arr = NONLEAFSIZE t + 1"
    "offset \<le> NONLEAFSIZE t + 1"
  shows "offset \<le> k" "k \<le> NONLEAFSIZE t + 1" "\<forall>j. offset \<le> j \<and> j < k \<longrightarrow> arr ! j \<noteq> 0"
    "k \<le> NONLEAFSIZE t \<longrightarrow> arr ! k = 0"
proof -
  let ?w = "takeWhile (\<lambda>p. p \<noteq> 0) (drop offset arr)"
  have k: "k = offset + length ?w"
    using assms firstInvalid_result [of offset t arr] by simp
  show "offset \<le> k" using k by simp
  have lw: "length ?w \<le> length (drop offset arr)"
    by (rule length_takeWhile_le)
  then show "k \<le> NONLEAFSIZE t + 1"
    using k assms by simp
  show "\<forall>j. offset \<le> j \<and> j < k \<longrightarrow> arr ! j \<noteq> 0"
  proof (intro allI impI)
    fix j assume "offset \<le> j \<and> j < k"
    then have j: "offset \<le> j" "j < k" by simp_all
    then have "j - offset < length ?w" using k by simp
    then have "drop offset arr ! (j - offset) \<noteq> 0"
      using nth_length_takeWhile [of "\<lambda>p. p \<noteq> 0" "drop offset arr"]
      by (metis (mono_tags, lifting) nth_mem set_takeWhileD takeWhile_nth)
    moreover have "offset + (j - offset) < length arr"
      using j k lw assms by simp
    ultimately show "arr ! j \<noteq> 0"
      using j by simp
  qed
  show "k \<le> NONLEAFSIZE t \<longrightarrow> arr ! k = 0"
  proof
    assume "k \<le> NONLEAFSIZE t"
    then have "length ?w < length (drop offset arr)"
      using k assms by simp
    then have "\<not> (drop offset arr ! length ?w \<noteq> 0)"
      by (rule nth_length_takeWhile)
    then show "arr ! k = 0"
      using k assms \<open>k \<le> NONLEAFSIZE t\<close> by simp
  qed
qed

lemma shiftRight_result:
  "offset \<le> k \<Longrightarrow> k < length (pageNoArray n) \<Longrightarrow> k \<le> length (nkeyArray n) \<Longrightarrow>
   shiftRight n k offset
     = Some (n\<lparr>nkeyArray := shifted (nkeyArray n) (offset - 1) (k - 1),
               pageNoArray := shifted (pageNoArray n) offset k\<rparr>)"
proof (induction n k offset rule: shiftRight.induct)
  case (1 node k offset)
  show ?case
  proof (cases "k > offset")
    case False
    with "1.prems" show ?thesis
      by (subst shiftRight.simps) (simp add: shifted_same)
  next
    case True
    let ?pa = "(pageNoArray node)[k := pageNoArray node ! (k - 1)]"
    let ?n1 = "node\<lparr>pageNoArray := ?pa\<rparr>"
    let ?ka = "if k \<ge> 2 then (nkeyArray node)[k - 1 := nkeyArray node ! (k - 2)] else nkeyArray node"
    let ?n2 = "?n1\<lparr>nkeyArray := ?ka\<rparr>"
    have s1: "(if k \<ge> 1 then do {
                    v \<leftarrow> get (pageNoArray node) (k - 1);
                    a \<leftarrow> put (pageNoArray node) k v;
                    Some (node\<lparr>pageNoArray := a\<rparr>)
                  } else Some node) = Some ?n1"
      using True "1.prems" by (simp add: get_def put_def)
    have s2: "(if k \<ge> 2 then do {
                    v \<leftarrow> get (nkeyArray ?n1) (k - 2);
                    a \<leftarrow> put (nkeyArray ?n1) (k - 1) v;
                    Some (?n1\<lparr>nkeyArray := a\<rparr>)
                  } else Some ?n1) = Some ?n2"
      using True "1.prems" by (auto simp: get_def put_def)
    have ih: "shiftRight ?n2 (k - 1) offset
                = Some (?n2\<lparr>nkeyArray := shifted (nkeyArray ?n2) (offset - 1) (k - 1 - 1),
                             pageNoArray := shifted (pageNoArray ?n2) offset (k - 1)\<rparr>)"
      using True "1.prems" by (intro "1.IH" [OF True s1 s2]) auto
    have p: "shifted ?pa offset (k - 1) = shifted (pageNoArray node) offset k"
      using True "1.prems" shifted_step [of offset k "pageNoArray node"] by simp
    have e: "k - 1 - 1 = k - 2" by simp
    have q: "shifted ?ka (offset - 1) (k - 2) = shifted (nkeyArray node) (offset - 1) (k - 1)"
    proof (cases "k \<ge> 2")
      case False
      with True have "k = 1" "offset = 0" by simp_all
      then show ?thesis by simp
    next
      case k2: True
      then have "offset - 1 < k - 1" using True by simp
      moreover have "k - 1 < length (nkeyArray node)" using k2 "1.prems" by simp
      moreover have "k - 1 - Suc 0 = k - 2" by simp
      ultimately show ?thesis
        using k2 shifted_step [of "offset - 1" "k - 1" "nkeyArray node"]
        by simp
    qed
    show ?thesis
      by (subst shiftRight.simps) (simp add: True s1 s2 ih [unfolded e] p q del: One_nat_def)
  qed
qed

lemma shifted_put_keys: "a < length xs \<Longrightarrow> (shifted xs (a - 1) j)[a := v] = withSlot xs a j v"
  by (rule nth_equalityI) (auto simp: shifted_def withSlot_def nth_list_update)

lemma shifted_put_pages: "(shifted xs a j)[a + 1 := v] = withSlot xs (Suc a) j v"
  by (rule nth_equalityI) (auto simp: shifted_def withSlot_def nth_list_update)

lemma length_withSlot [simp]: "length (withSlot xs a i v) = length xs"
  by (simp add: withSlot_def)

lemma shiftRight_full:
  "shiftRight n k offset = Some n' \<Longrightarrow> offset < k \<Longrightarrow> k < length (pageNoArray n)"
  by (subst (asm) shiftRight.simps) (auto simp: bind_eq_Some_conv put_Some_iff split: if_splits)

lemma shiftInsert_result:
  assumes "shiftInsert t n offset newKey newPage = Some n'"
    and "length (pageNoArray n) = NONLEAFSIZE t + 1" and "length (nkeyArray n) = NONLEAFSIZE t"
  shows "\<exists>k. firstInvalid t (pageNoArray n) offset = Some k \<and> offset \<le> k \<and> k \<le> NONLEAFSIZE t
           \<and> offset < NONLEAFSIZE t
           \<and> n' = n\<lparr>nkeyArray := withSlot (nkeyArray n) offset (k - 1) newKey,
                      pageNoArray := withSlot (pageNoArray n) (Suc offset) k newPage\<rparr>"
proof -
  from assms(1) obtain k n1 pa ka where
    fi: "firstInvalid t (pageNoArray n) offset = Some k"
    and sr: "shiftRight n k offset = Some n1"
    and pa: "put (pageNoArray n1) (offset + 1) newPage = Some pa"
    and ka: "put (nkeyArray n1) offset newKey = Some ka"
    and n': "n' = n1\<lparr>nkeyArray := ka, pageNoArray := pa\<rparr>"
    by (auto simp: shiftInsert_def bind_eq_Some_conv)
  have o: "offset \<le> NONLEAFSIZE t + 1"
  proof (rule ccontr)
    assume "\<not> offset \<le> NONLEAFSIZE t + 1"
    then have big: "offset > NONLEAFSIZE t + 1" by simp
    with fi have "k = offset"
      by (subst (asm) firstInvalid.simps) simp
    with sr have "n1 = n"
      by (subst (asm) shiftRight.simps) simp
    with pa big assms(2) show False
      by (simp add: put_Some_iff)
  qed
  note f = firstInvalid_Some [OF fi assms(2) o]
  have kn: "k \<le> NONLEAFSIZE t"
  proof (cases "offset < k")
    case True
    from shiftRight_full [OF sr True] assms(2) show ?thesis by simp
  next
    case False
    with f(1) have "k = offset" by simp
    with sr have "n1 = n"
      by (subst (asm) shiftRight.simps) simp
    with pa assms(2) \<open>k = offset\<close> show ?thesis
      by (simp add: put_Some_iff)
  qed
  have n1: "n1 = n\<lparr>nkeyArray := shifted (nkeyArray n) (offset - 1) (k - 1),
                    pageNoArray := shifted (pageNoArray n) offset k\<rparr>"
    using sr shiftRight_result [of offset k n] f(1) kn assms(2,3) by simp
  have on: "offset < NONLEAFSIZE t"
    using ka n1 assms(3) by (simp add: put_Some_iff)
  have "n' = n\<lparr>nkeyArray := withSlot (nkeyArray n) offset (k - 1) newKey,
                pageNoArray := withSlot (pageNoArray n) (Suc offset) k newPage\<rparr>"
    using n' pa ka n1 on assms(2,3)
    by (simp add: put_Some_iff shifted_put_keys shifted_put_pages del: One_nat_def)
  with fi f(1) kn on show ?thesis by blast
qed

lemma take_update_zero:
  "i < length xs \<Longrightarrow> take (Suc i) (xs[i := v]) @ replicate n v = take i xs @ replicate (Suc n) v"
  by (simp add: take_Suc_conv_app_nth replicate_app_Cons_same)

lemma move_step:
  "j < length ys \<Longrightarrow> i < length xs \<Longrightarrow>
   take (Suc j) (ys[j := xs ! i]) @ drop (Suc i) (xs[i := v]) @ drop (Suc (j + n)) (ys[j := xs ! i])
     = take j ys @ drop i xs @ drop (Suc (j + n)) ys"
  by (simp add: take_Suc_conv_app_nth Cons_nth_drop_Suc)

lemma moveNonLeaf_result:
  "i \<le> NONLEAFSIZE t \<Longrightarrow> length (nkeyArray p) = NONLEAFSIZE t \<Longrightarrow>
   length (pageNoArray p) = NONLEAFSIZE t + 1 \<Longrightarrow>
   j + (NONLEAFSIZE t - i) \<le> length (nkeyArray r) \<Longrightarrow>
   j + 1 + (NONLEAFSIZE t - i) \<le> length (pageNoArray r) \<Longrightarrow>
   moveNonLeaf t p r i j
     = Some (p\<lparr>nkeyArray := take i (nkeyArray p) @ replicate (NONLEAFSIZE t - i) 0,
               pageNoArray := take (i + 1) (pageNoArray p) @ replicate (NONLEAFSIZE t - i) 0\<rparr>,
             r\<lparr>nkeyArray := take j (nkeyArray r) @ drop i (nkeyArray p)
                               @ drop (j + (NONLEAFSIZE t - i)) (nkeyArray r),
               pageNoArray := take (j + 1) (pageNoArray r) @ drop (i + 1) (pageNoArray p)
                               @ drop (j + 1 + (NONLEAFSIZE t - i)) (pageNoArray r)\<rparr>)"
proof (induction t p r i j rule: moveNonLeaf.induct)
  case (1 t parentData dataPageRight i j)
  show ?case
  proof (cases "i < NONLEAFSIZE t")
    case False
    with "1.prems" show ?thesis
      by (subst moveNonLeaf.simps) simp
  next
    case True
    let ?ka = "(nkeyArray dataPageRight)[j := nkeyArray parentData ! i]"
    let ?pa = "(pageNoArray dataPageRight)[j + 1 := pageNoArray parentData ! (i + 1)]"
    let ?pk = "(nkeyArray parentData)[i := 0]"
    let ?pp = "(pageNoArray parentData)[i + 1 := 0]"
    have n: "NONLEAFSIZE t - i = Suc (NONLEAFSIZE t - (i + 1))"
      using True by simp
    have ih: "moveNonLeaf t (parentData\<lparr>nkeyArray := ?pk, pageNoArray := ?pp\<rparr>)
                (dataPageRight\<lparr>nkeyArray := ?ka, pageNoArray := ?pa\<rparr>) (i + 1) (j + 1)
              = Some (parentData\<lparr>nkeyArray := take (i + 1) ?pk @ replicate (NONLEAFSIZE t - (i + 1)) 0,
                        pageNoArray := take (i + 1 + 1) ?pp @ replicate (NONLEAFSIZE t - (i + 1)) 0\<rparr>,
                      dataPageRight\<lparr>nkeyArray := take (j + 1) ?ka @ drop (i + 1) ?pk
                               @ drop (j + 1 + (NONLEAFSIZE t - (i + 1))) ?ka,
                        pageNoArray := take (j + 1 + 1) ?pa @ drop (i + 1 + 1) ?pp
                               @ drop (j + 1 + 1 + (NONLEAFSIZE t - (i + 1))) ?pa\<rparr>)"
      using True "1.prems"
        "1.IH" [OF True, of "nkeyArray parentData ! i" ?ka "pageNoArray parentData ! (i + 1)" ?pa ?pk ?pp]
      by (simp add: get_def put_def)
    have e1: "take (i + 1) ?pk @ replicate (NONLEAFSIZE t - (i + 1)) 0
              = take i (nkeyArray parentData) @ replicate (NONLEAFSIZE t - i) 0"
      using True "1.prems" take_update_zero [of i "nkeyArray parentData" 0 "NONLEAFSIZE t - (i + 1)"]
      by (simp add: n del: replicate_Suc)
    have e2: "take (i + 1 + 1) ?pp @ replicate (NONLEAFSIZE t - (i + 1)) 0
              = take (i + 1) (pageNoArray parentData) @ replicate (NONLEAFSIZE t - i) 0"
      using True "1.prems"
        take_update_zero [of "i + 1" "pageNoArray parentData" 0 "NONLEAFSIZE t - (i + 1)"]
      by (simp add: n del: replicate_Suc)
    have e3: "take (j + 1) ?ka @ drop (i + 1) ?pk @ drop (j + 1 + (NONLEAFSIZE t - (i + 1))) ?ka
              = take j (nkeyArray dataPageRight) @ drop i (nkeyArray parentData)
                  @ drop (j + (NONLEAFSIZE t - i)) (nkeyArray dataPageRight)"
      using True "1.prems"
        move_step [of j "nkeyArray dataPageRight" i "nkeyArray parentData" 0 "NONLEAFSIZE t - (i + 1)"]
      by (simp add: n)
    have e4: "take (j + 1 + 1) ?pa @ drop (i + 1 + 1) ?pp
                @ drop (j + 1 + 1 + (NONLEAFSIZE t - (i + 1))) ?pa
              = take (j + 1) (pageNoArray dataPageRight) @ drop (i + 1) (pageNoArray parentData)
                  @ drop (j + 1 + (NONLEAFSIZE t - i)) (pageNoArray dataPageRight)"
      using True "1.prems"
        move_step [of "j + 1" "pageNoArray dataPageRight" "i + 1" "pageNoArray parentData" 0
                      "NONLEAFSIZE t - (i + 1)"]
      by (simp add: n)
    have g: "get (nkeyArray parentData) i = Some (nkeyArray parentData ! i)"
      "put (nkeyArray dataPageRight) j (nkeyArray parentData ! i) = Some ?ka"
      "get (pageNoArray parentData) (i + 1) = Some (pageNoArray parentData ! (i + 1))"
      "put (pageNoArray dataPageRight) (j + 1) (pageNoArray parentData ! (i + 1)) = Some ?pa"
      "put (nkeyArray parentData) i 0 = Some ?pk"
      "put (pageNoArray parentData) (i + 1) 0 = Some ?pp"
      using True "1.prems" by (simp_all add: get_def put_def)
    show ?thesis
      apply (subst moveNonLeaf.simps)
      apply (simp only: True if_True g Option.bind.simps)
      apply (subst ih)
      apply (simp only: e1 e2 e3 e4)
      done
  qed
qed

lemma splitNonLeaf_result:
  assumes "length (nkeyArray p) = NONLEAFSIZE t" "length (pageNoArray p) = NONLEAFSIZE t + 1"
    and "1 \<le> NONLEAFSIZE t"
  shows "splitNonLeaf t p
     = Some (p\<lparr>nkeyArray := take (NONLEAFSIZE t div 2) (nkeyArray p)
                                @ replicate (NONLEAFSIZE t - NONLEAFSIZE t div 2) 0,
               pageNoArray := take (NONLEAFSIZE t div 2 + 1) (pageNoArray p)
                                @ replicate (NONLEAFSIZE t - NONLEAFSIZE t div 2) 0\<rparr>,
             \<lparr>level = level p,
              nkeyArray = drop (NONLEAFSIZE t div 2 + 1) (nkeyArray p)
                            @ replicate (NONLEAFSIZE t div 2 + 1) 0,
              pageNoArray = drop (NONLEAFSIZE t div 2 + 1) (pageNoArray p)
                            @ replicate (NONLEAFSIZE t div 2 + 1) 0\<rparr>)"
proof -
  let ?N = "NONLEAFSIZE t"
  let ?m = "?N div 2"
  let ?r = "(zeroNonLeaf t)\<lparr>level := level p\<rparr>"
  let ?pl = "p\<lparr>nkeyArray := take (?m + 1) (nkeyArray p) @ replicate (?N - (?m + 1)) 0,
               pageNoArray := take (?m + 1 + 1) (pageNoArray p) @ replicate (?N - (?m + 1)) 0\<rparr>"
  let ?pr = "?r\<lparr>nkeyArray := take 0 (nkeyArray ?r) @ drop (?m + 1) (nkeyArray p)
                               @ drop (0 + (?N - (?m + 1))) (nkeyArray ?r),
               pageNoArray := take (0 + 1) (pageNoArray ?r) @ drop (?m + 1 + 1) (pageNoArray p)
                               @ drop (0 + 1 + (?N - (?m + 1))) (pageNoArray ?r)\<rparr>"
  have m: "?m + 1 \<le> ?N" "?m < ?N"
    using assms(3) by auto
  have mv: "moveNonLeaf t p ?r (?m + 1) 0 = Some (?pl, ?pr)"
    using m assms(1,2) by (intro moveNonLeaf_result) (simp_all add: zeroNonLeaf_def)
  have g1: "get (pageNoArray ?pl) (?m + 1) = Some (pageNoArray p ! (?m + 1))"
    using m assms(2) by (simp add: get_def nth_append)
  have g2: "put (pageNoArray ?pr) 0 (pageNoArray p ! (?m + 1))
              = Some ((pageNoArray ?pr)[0 := pageNoArray p ! (?m + 1)])"
    by (simp add: put_def zeroNonLeaf_def)
  have g3: "put (pageNoArray ?pl) (?m + 1) 0 = Some ((pageNoArray ?pl)[?m + 1 := 0])"
    using m assms(2) by (simp add: put_def)
  have g4: "put (nkeyArray ?pl) ?m 0 = Some ((nkeyArray ?pl)[?m := 0])"
    using m assms(1) by (simp add: put_def)
  have l1: "(nkeyArray ?pl)[?m := 0] = take ?m (nkeyArray p) @ replicate (?N - ?m) 0"
    using m assms(1)
    by (intro nth_equalityI) (auto simp: nth_append nth_list_update)
  have l2: "(pageNoArray ?pl)[?m + 1 := 0] = take (?m + 1) (pageNoArray p) @ replicate (?N - ?m) 0"
    using m assms(2)
    by (intro nth_equalityI) (auto simp: nth_append nth_list_update)
  have r1: "nkeyArray ?pr = drop (?m + 1) (nkeyArray p) @ replicate (?m + 1) 0"
    using m by (simp add: zeroNonLeaf_def)
  have r2: "(pageNoArray ?pr)[0 := pageNoArray p ! (?m + 1)]
            = drop (?m + 1) (pageNoArray p) @ replicate (?m + 1) 0"
    using m assms(2)
    by (intro nth_equalityI) (auto simp: zeroNonLeaf_def nth_append nth_Cons' nth_list_update)
  have fin: "(?pl\<lparr>nkeyArray := (nkeyArray ?pl)[?m := 0], pageNoArray := (pageNoArray ?pl)[?m + 1 := 0]\<rparr>,
              ?pr\<lparr>pageNoArray := (pageNoArray ?pr)[0 := pageNoArray p ! (?m + 1)]\<rparr>)
     = (p\<lparr>nkeyArray := take ?m (nkeyArray p) @ replicate (?N - ?m) 0,
          pageNoArray := take (?m + 1) (pageNoArray p) @ replicate (?N - ?m) 0\<rparr>,
        \<lparr>level = level p,
         nkeyArray = drop (?m + 1) (nkeyArray p) @ replicate (?m + 1) 0,
         pageNoArray = drop (?m + 1) (pageNoArray p) @ replicate (?m + 1) 0\<rparr>)"
    unfolding l1 l2 r2 using r1 by (simp add: zeroNonLeaf_def)
  show ?thesis
    unfolding splitNonLeaf_def Let_def
    by (simp only: mv prod.case Option.bind.simps g1 g2 g3 g4 fin)
qed

lemma moveLeaf_result:
  "i \<le> LEAFSIZE t \<Longrightarrow> length (keyArray p) = LEAFSIZE t \<Longrightarrow>
   length (ridArray p) = LEAFSIZE t \<Longrightarrow>
   j + (LEAFSIZE t - i) \<le> length (keyArray r) \<Longrightarrow>
   j + (LEAFSIZE t - i) \<le> length (ridArray r) \<Longrightarrow>
   moveLeaf t p r i j
     = Some (p\<lparr>keyArray := take i (keyArray p) @ replicate (LEAFSIZE t - i) 0,
               ridArray := take i (ridArray p) @ replicate (LEAFSIZE t - i) noRid\<rparr>,
             r\<lparr>keyArray := take j (keyArray r) @ drop i (keyArray p)
                               @ drop (j + (LEAFSIZE t - i)) (keyArray r),
               ridArray := take j (ridArray r) @ drop i (ridArray p)
                               @ drop (j + (LEAFSIZE t - i)) (ridArray r)\<rparr>)"
proof (induction t p r i j rule: moveLeaf.induct)
  case (1 t dataPage dataPageRight i j)
  show ?case
  proof (cases "i < LEAFSIZE t")
    case False
    with "1.prems" show ?thesis
      by (subst moveLeaf.simps) simp
  next
    case True
    let ?ka = "(keyArray dataPageRight)[j := keyArray dataPage ! i]"
    let ?ra = "(ridArray dataPageRight)[j := ridArray dataPage ! i]"
    let ?dk = "(keyArray dataPage)[i := 0]"
    let ?dr = "(ridArray dataPage)[i := noRid]"
    have n: "LEAFSIZE t - i = Suc (LEAFSIZE t - (i + 1))"
      using True by simp
    have g: "get (keyArray dataPage) i = Some (keyArray dataPage ! i)"
      "put (keyArray dataPageRight) j (keyArray dataPage ! i) = Some ?ka"
      "get (ridArray dataPage) i = Some (ridArray dataPage ! i)"
      "put (ridArray dataPageRight) j (ridArray dataPage ! i) = Some ?ra"
      "put (keyArray dataPage) i 0 = Some ?dk"
      "put (ridArray dataPage) i noRid = Some ?dr"
      using True "1.prems" by (simp_all add: get_def put_def)
    have ih: "moveLeaf t (dataPage\<lparr>keyArray := ?dk, ridArray := ?dr\<rparr>)
                (dataPageRight\<lparr>keyArray := ?ka, ridArray := ?ra\<rparr>) (i + 1) (j + 1)
              = Some (dataPage\<lparr>keyArray := take (i + 1) ?dk @ replicate (LEAFSIZE t - (i + 1)) 0,
                        ridArray := take (i + 1) ?dr @ replicate (LEAFSIZE t - (i + 1)) noRid\<rparr>,
                      dataPageRight\<lparr>keyArray := take (j + 1) ?ka @ drop (i + 1) ?dk
                               @ drop (j + 1 + (LEAFSIZE t - (i + 1))) ?ka,
                        ridArray := take (j + 1) ?ra @ drop (i + 1) ?dr
                               @ drop (j + 1 + (LEAFSIZE t - (i + 1))) ?ra\<rparr>)"
      using True "1.prems" "1.IH" [OF True g(1) g(2) g(3) g(4) g(5) g(6)]
      by simp
    have e1: "take (i + 1) ?dk @ replicate (LEAFSIZE t - (i + 1)) 0
              = take i (keyArray dataPage) @ replicate (LEAFSIZE t - i) 0"
      using True "1.prems" take_update_zero [of i "keyArray dataPage" 0 "LEAFSIZE t - (i + 1)"]
      by (simp add: n del: replicate_Suc)
    have e2: "take (i + 1) ?dr @ replicate (LEAFSIZE t - (i + 1)) noRid
              = take i (ridArray dataPage) @ replicate (LEAFSIZE t - i) noRid"
      using True "1.prems" take_update_zero [of i "ridArray dataPage" noRid "LEAFSIZE t - (i + 1)"]
      by (simp add: n del: replicate_Suc)
    have e3: "take (j + 1) ?ka @ drop (i + 1) ?dk @ drop (j + 1 + (LEAFSIZE t - (i + 1))) ?ka
              = take j (keyArray dataPageRight) @ drop i (keyArray dataPage)
                  @ drop (j + (LEAFSIZE t - i)) (keyArray dataPageRight)"
      using True "1.prems"
        move_step [of j "keyArray dataPageRight" i "keyArray dataPage" 0 "LEAFSIZE t - (i + 1)"]
      by (simp add: n)
    have e4: "take (j + 1) ?ra @ drop (i + 1) ?dr @ drop (j + 1 + (LEAFSIZE t - (i + 1))) ?ra
              = take j (ridArray dataPageRight) @ drop i (ridArray dataPage)
                  @ drop (j + (LEAFSIZE t - i)) (ridArray dataPageRight)"
      using True "1.prems"
        move_step [of j "ridArray dataPageRight" i "ridArray dataPage" noRid "LEAFSIZE t - (i + 1)"]
      by (simp add: n)
    show ?thesis
      apply (subst moveLeaf.simps)
      apply (simp only: True if_True g Option.bind.simps)
      apply (subst ih)
      apply (simp only: e1 e2 e3 e4)
      done
  qed
qed

lemma splitLeafNode_result:
  assumes "length (keyArray l) = LEAFSIZE t" "length (ridArray l) = LEAFSIZE t"
  shows "splitLeafNode t l g
     = Some (\<lparr>keyArray = take (LEAFSIZE t div 2) (keyArray l)
                            @ replicate (LEAFSIZE t - LEAFSIZE t div 2) 0,
              ridArray = take (LEAFSIZE t div 2) (ridArray l)
                            @ replicate (LEAFSIZE t - LEAFSIZE t div 2) noRid,
              rightSibPageNo = g\<rparr>,
             \<lparr>keyArray = drop (LEAFSIZE t div 2) (keyArray l) @ replicate (LEAFSIZE t div 2) 0,
              ridArray = drop (LEAFSIZE t div 2) (ridArray l) @ replicate (LEAFSIZE t div 2) noRid,
              rightSibPageNo = rightSibPageNo l\<rparr>)"
proof -
  let ?L = "LEAFSIZE t"
  let ?m = "?L div 2"
  let ?o = "l\<lparr>rightSibPageNo := g\<rparr>"
  let ?r = "(zeroLeaf t)\<lparr>rightSibPageNo := rightSibPageNo l\<rparr>"
  let ?ol = "?o\<lparr>keyArray := take ?m (keyArray ?o) @ replicate (?L - ?m) 0,
               ridArray := take ?m (ridArray ?o) @ replicate (?L - ?m) noRid\<rparr>"
  let ?rl = "?r\<lparr>keyArray := take 0 (keyArray ?r) @ drop ?m (keyArray ?o)
                               @ drop (0 + (?L - ?m)) (keyArray ?r),
               ridArray := take 0 (ridArray ?r) @ drop ?m (ridArray ?o)
                               @ drop (0 + (?L - ?m)) (ridArray ?r)\<rparr>"
  have mv: "moveLeaf t ?o ?r ?m 0 = Some (?ol, ?rl)"
    using assms by (intro moveLeaf_result) (simp_all add: zeroLeaf_def)
  have fin: "(?ol, ?rl)
     = (\<lparr>keyArray = take ?m (keyArray l) @ replicate (?L - ?m) 0,
         ridArray = take ?m (ridArray l) @ replicate (?L - ?m) noRid,
         rightSibPageNo = g\<rparr>,
        \<lparr>keyArray = drop ?m (keyArray l) @ replicate ?m 0,
         ridArray = drop ?m (ridArray l) @ replicate ?m noRid,
         rightSibPageNo = rightSibPageNo l\<rparr>)"
    by (cases l) (simp add: zeroLeaf_def)
  show ?thesis
    unfolding splitLeafNode_def
    by (simp only: mv fin)
qed

section \<open>Pins during the descent\<close>

lemma pinsAfter_hops: "pinsAfter [a] (hops (a # ps)) = [last (a # ps)]"
  by (induction ps arbitrary: a) auto

lemma pinsAfter_append: "pinsAfter ps (es @ fs) = pinsAfter (pinsAfter ps es) fs"
  by (induction ps es rule: pinsAfter.induct) auto

lemma pinsAfter_hops_prefix: "length (pinsAfter [a] (take n (hops (a # ps)))) \<le> 1"
proof (induction ps arbitrary: a n)
  case Nil
  then show ?case by simp
next
  case (Cons b ps)
  show ?case
  proof (cases n)
    case 0
    then show ?thesis by simp
  next
    case (Suc m)
    show ?thesis
    proof (cases m)
      case 0
      with Suc show ?thesis by simp
    next
      case (Suc k)
      with \<open>n = Suc m\<close> Cons.IH [of b k] show ?thesis by simp
    qed
  qed
qed

lemma nodeAbove_Nil:
  "nodeAbove t s pid pd [] = Some (s1, nrd0, pp, ppo) \<Longrightarrow>
   s1 = s\<lparr>pages := pages s @ [BlankPage], bufLog := bufLog s @ [Pin (length (pages s))],
          rootPageNum := length (pages s)\<rparr>
   \<and> pp = length (pages s) \<and> ppo = 0
   \<and> nrd0 = \<lparr>level = level pd + 1, nkeyArray = replicate (NONLEAFSIZE t) 0,
              pageNoArray = (replicate (NONLEAFSIZE t + 1) 0)[0 := pid]\<rparr>"
  by (auto simp: nodeAbove_def allocPage_def Let_def put_Some_iff zeroNonLeaf_def bind_eq_Some_conv)

lemma nodeAbove_Cons:
  "nodeAbove t s pid pd ((i, q) # rest) = Some (s1, nrd0, pp, ppo) \<Longrightarrow>
   s1 = s\<lparr>bufLog := bufLog s @ [Pin q]\<rparr> \<and> pp = q \<and> ppo = i \<and> nonLeafAt s q = Some nrd0
   \<and> 0 < q"
  by (auto simp: nodeAbove_def readPage_Some bind_eq_Some_conv)

lemma nodeAbove_length:
  "nodeAbove t s pid pd path = Some (s1, nrd0, pp, ppo) \<Longrightarrow> length (pages s) \<le> length (pages s1)"
  by (cases path) (auto dest!: nodeAbove_Nil nodeAbove_Cons)

lemma splitParent_Some:
  assumes "splitParent t k s offset pid pd path done G = Some (s', G')"
  shows "\<exists>s1 nrd0 pp ppo median nrd pl pr.
      nodeAbove t s pid pd path = Some (s1, nrd0, pp, ppo)
    \<and> get (nkeyArray pd) (NONLEAFSIZE t div 2) = Some median
    \<and> shiftInsert t nrd0 ppo median (length (pages s1)) = Some nrd
    \<and> splitNonLeaf t pd = Some (pl, pr)
    \<and> s' = s1\<lparr>pages := (pages s1 @ [BlankPage])[pid := NonLeafPage pl, pp := NonLeafPage nrd,
                                                   length (pages s1) := NonLeafPage pr],
               bufLog := bufLog s'\<rparr>
    \<and> G' = (if done = False
            then (if k \<ge> median
                  then Some (length (pages s1), int offset - int (NONLEAFSIZE t div 2) - 1)
                  else Some (pid, int offset))
            else G)"
  using assms
  unfolding splitParent_def Let_def allocPage_def
  by (clarsimp simp: bind_eq_Some_conv split del: if_split)
     (auto simp: writePage_def unPinPage_def split: if_splits)

lemma splitLeaf_Some:
  assumes "splitLeaf t k s lastPage insertAt (gp, goff) = Some (s', out)"
  shows "\<exists>pd dp median pd' dl dr.
      0 \<le> goff \<and> nonLeafAt s gp = Some pd \<and> leafAt s lastPage = Some dp
    \<and> get (keyArray dp) (LEAFSIZE t div 2) = Some median
    \<and> shiftInsert t pd (nat goff) median (length (pages s)) = Some pd'
    \<and> splitLeafNode t dp (length (pages s)) = Some (dl, dr)
    \<and> s' = s\<lparr>pages := (pages s @ [BlankPage])[gp := NonLeafPage pd', lastPage := LeafPage dl,
                                                 length (pages s) := LeafPage dr],
              bufLog := bufLog s'\<rparr>
    \<and> out = (if k > median
             then (length (pages s), int insertAt - int (LEAFSIZE t div 2),
                   if LEAFSIZE t mod 2 \<noteq> 0 then LEAFSIZE t div 2 + 1 else LEAFSIZE t div 2, lastPage)
             else (lastPage, int insertAt, LEAFSIZE t div 2, lastPage))"
  using assms
  unfolding splitLeaf_def Let_def allocPage_def
  by (clarsimp simp: bind_eq_Some_conv split del: if_split)
     (auto simp: writePage_def unPinPage_def split: if_splits)

lemma shiftRight_level: "shiftRight n k offset = Some n' \<Longrightarrow> level n' = level n"
proof (induction n k offset arbitrary: n' rule: shiftRight.induct)
  case (1 node k offset)
  show ?case
  proof (cases "k > offset")
    case False
    with "1.prems" show ?thesis
      by (subst (asm) shiftRight.simps) simp
  next
    case True
    from "1.prems" True obtain n1 n2 where
      a: "(if k \<ge> 1 then do {
                    v \<leftarrow> get (pageNoArray node) (k - 1);
                    a \<leftarrow> put (pageNoArray node) k v;
                    Some (node\<lparr>pageNoArray := a\<rparr>)
                  } else Some node) = Some n1"
      and b: "(if k \<ge> 2 then do {
                    v \<leftarrow> get (nkeyArray n1) (k - 2);
                    a \<leftarrow> put (nkeyArray n1) (k - 1) v;
                    Some (n1\<lparr>nkeyArray := a\<rparr>)
                  } else Some n1) = Some n2"
      and c: "shiftRight n2 (k - 1) offset = Some n'"
      by (subst (asm) shiftRight.simps) (auto simp: bind_eq_Some_conv)
    have "level n1 = level node"
      using a by (auto simp: bind_eq_Some_conv split: if_splits)
    moreover have "level n2 = level n1"
      using b by (auto simp: bind_eq_Some_conv split: if_splits)
    moreover have "level n' = level n2"
      by (rule "1.IH" [OF True a b c])
    ultimately show ?thesis by simp
  qed
qed

lemma shiftInsert_slots:
  assumes "shiftInsert t n offset newKey newPage = Some n'"
  shows "nkeyArray n' ! offset = newKey" "pageNoArray n' ! (offset + 1) = newPage"
    "offset < length (nkeyArray n')" "offset + 1 < length (pageNoArray n')" "level n' = level n"
  using assms
  by (auto simp: shiftInsert_def bind_eq_Some_conv put_Some_iff dest: shiftRight_level)

lemma splitParent_leaf_frame:
  assumes "splitParent t k s offset pid pd path dn G = Some (s', G')"
    and "leafAt s p = Some l" and "nonLeafAt s pid = Some pd"
  shows "leafAt s' p = Some l \<and> length (pages s) < length (pages s')"
proof -
  from splitParent_Some [OF assms(1)] obtain s1 nrd0 pp ppo median nrd pl pr where
    na: "nodeAbove t s pid pd path = Some (s1, nrd0, pp, ppo)"
    and s': "s' = s1\<lparr>pages := (pages s1 @ [BlankPage])[pid := NonLeafPage pl, pp := NonLeafPage nrd,
                                                   length (pages s1) := NonLeafPage pr],
               bufLog := bufLog s'\<rparr>"
    by blast
  have p: "p < length (pages s)" "pages s ! p = LeafPage l"
    using assms(2) by (simp_all add: leafAt_Some)
  have pid: "pid \<noteq> p"
    using assms(2,3) by (auto simp: leafAt_Some nonLeafAt_Some)
  have "pp \<noteq> p \<and> length (pages s) \<le> length (pages s1) \<and> pages s1 ! p = LeafPage l"
  proof (cases path)
    case Nil
    with na nodeAbove_Nil [of t s pid pd s1 nrd0 pp ppo] p show ?thesis
      by (auto simp: nth_append)
  next
    case (Cons a rest)
    obtain i q where "a = (i, q)" by (cases a)
    with Cons na nodeAbove_Cons [of t s pid pd i q rest s1 nrd0 pp ppo] p assms(2) show ?thesis
      by (auto simp: leafAt_Some nonLeafAt_Some)
  qed
  then show ?thesis
    using p pid
    by (subst s', subst s') (simp add: leafAt_Some nth_append nth_list_update)
qed

lemma splitParents_Cons:
  "splitParents t k s ((offset, pid) # path) dn G = Some (s', G') \<Longrightarrow>
   \<exists>pd kk. 0 < pid \<and> pid < length (pages s) \<and> nonLeafAt s pid = Some pd
     \<and> firstInvalid t (pageNoArray pd) offset = Some kk
     \<and> ((kk = NONLEAFSIZE t + 1
          \<and> (\<exists>s2 G2. splitParent t k (s\<lparr>bufLog := bufLog s @ [Pin pid]\<rparr>) offset pid pd path dn
                         (if dn then G else Some (pid, int offset)) = Some (s2, G2)
                \<and> splitParents t k s2 path True G2 = Some (s', G')))
        \<or> (kk \<noteq> NONLEAFSIZE t + 1 \<and> G' = (if dn then G else Some (pid, int offset))
            \<and> G' \<noteq> None \<and> s' = s\<lparr>bufLog := bufLog s'\<rparr>))"
  by (auto simp: readPage_Some bind_eq_Some_conv Let_def unPinPage_def split: if_splits)

lemma splitParents_leaf_frame:
  "splitParents t k s path dn G = Some (s', G') \<Longrightarrow> leafAt s p = Some l \<Longrightarrow>
   leafAt s' p = Some l \<and> length (pages s) \<le> length (pages s')"
proof (induction path arbitrary: s dn G)
  case Nil
  then show ?case by simp
next
  case (Cons a path)
  obtain offset pid where a: "a = (offset, pid)" by (cases a)
  let ?s1 = "s\<lparr>bufLog := bufLog s @ [Pin pid]\<rparr>"
  from splitParents_Cons [OF Cons.prems(1) [unfolded a]] obtain pd kk where
    nl: "nonLeafAt s pid = Some pd"
    and alt: "(kk = NONLEAFSIZE t + 1
          \<and> (\<exists>s2 G2. splitParent t k ?s1 offset pid pd path dn
                         (if dn then G else Some (pid, int offset)) = Some (s2, G2)
                \<and> splitParents t k s2 path True G2 = Some (s', G')))
        \<or> (kk \<noteq> NONLEAFSIZE t + 1 \<and> G' = (if dn then G else Some (pid, int offset))
            \<and> G' \<noteq> None \<and> s' = s\<lparr>bufLog := bufLog s'\<rparr>)"
    by blast
  have l1: "leafAt ?s1 p = Some l" using Cons.prems(2) by simp
  have n1: "nonLeafAt ?s1 pid = Some pd" using nl by simp
  from alt show ?case
  proof
    assume "kk = NONLEAFSIZE t + 1
          \<and> (\<exists>s2 G2. splitParent t k ?s1 offset pid pd path dn
                         (if dn then G else Some (pid, int offset)) = Some (s2, G2)
                \<and> splitParents t k s2 path True G2 = Some (s', G'))"
    then obtain s2 G2 where
      sp: "splitParent t k ?s1 offset pid pd path dn
             (if dn then G else Some (pid, int offset)) = Some (s2, G2)"
      and sps: "splitParents t k s2 path True G2 = Some (s', G')"
      by blast
    from splitParent_leaf_frame [OF sp l1 n1] have "leafAt s2 p = Some l"
      and "length (pages ?s1) < length (pages s2)" by simp_all
    with Cons.IH [OF sps] show ?thesis by simp
  next
    assume "kk \<noteq> NONLEAFSIZE t + 1 \<and> G' = (if dn then G else Some (pid, int offset))
            \<and> G' \<noteq> None \<and> s' = s\<lparr>bufLog := bufLog s'\<rparr>"
    then have "s' = s\<lparr>bufLog := bufLog s'\<rparr>" by simp
    then have "leafAt s' p = leafAt s p" "pages s' = pages s"
      by (metis leafAt_bufLog, metis BTreeIndex.select_convs(1) BTreeIndex.surjective BTreeIndex.update_convs(2))
    with Cons.prems(2) show ?thesis by simp
  qed
qed

lemma getPageNo_cases:
  assumes "getPageNoAndOffsetOfKeyInsert t s key insertMode = Some (s', out)"
  obtains rootData s1 lastPage path dataPage i insertAt where
      "nonLeafAt s (rootPageNum s) = Some rootData"
      "descend t key (level rootData) s 1 (rootPageNum s) [] = Some (s1, lastPage, path)"
      "leafView t s1 lastPage = Some dataPage"
      "leafSlot t dataPage key insertMode 0 (LEAFSIZE t) = Some (i, insertAt)"
      "(i = LEAFSIZE t
         \<and> (\<exists>s2 G. splitParents t key s1 path False None = Some (s2, Some G)
               \<and> splitLeaf t key s2 lastPage insertAt G = Some (s', out)))
       \<or> (i \<noteq> LEAFSIZE t \<and> s' = unPinPage s1 lastPage
           \<and> out = (lastPage, int insertAt, i, lastPage))"
  using assms
  by (auto simp: getPageNoAndOffsetOfKeyInsert_def bind_eq_Some_conv split: if_splits)

lemma splitLeaf_length:
  "splitLeaf t k s lastPage insertAt G = Some (s', out) \<Longrightarrow>
   length (pages s') = length (pages s) + 1"
proof -
  assume a: "splitLeaf t k s lastPage insertAt G = Some (s', out)"
  obtain gp goff where "G = (gp, goff)" by (cases G)
  with a splitLeaf_Some [of t k s lastPage insertAt gp goff s' out] obtain ps where
    "s' = s\<lparr>pages := ps, bufLog := bufLog s'\<rparr>" "length ps = length (pages s) + 1"
    by auto
  then show ?thesis
    by (metis BTreeIndex.select_convs(1) BTreeIndex.surjective BTreeIndex.update_convs(1,2))
qed

section \<open>The leaf split\<close>

lemma descentLeaf_Some:
  assumes "descentLeaf t s key = Some (p, l)"
  obtains rootData s1 path where
    "nonLeafAt s (rootPageNum s) = Some rootData"
    "descend t key (level rootData) s 1 (rootPageNum s) [] = Some (s1, p, path)"
    "leafAt s1 p = Some l"
  using assms by (auto simp: descentLeaf_def bind_eq_Some_conv)

lemma takeWhile_all: "length (takeWhile P xs) = length xs \<Longrightarrow> \<forall>x \<in> set xs. P x"
  by (metis takeWhile_eq_all_conv length_takeWhile_le takeWhile_eq_take take_all_iff order_refl)

section \<open>Files that keep the kind of their pages\<close>

lemma extends_refl: "extends ps ps"
  by (simp add: extends_def)

lemma extends_trans: "extends a b \<Longrightarrow> extends b c \<Longrightarrow> extends a c"
  by (auto simp: extends_def)

lemma extends_append: "extends ps (ps @ qs)"
  by (simp add: extends_def nth_append)

lemma extends_update:
  "(p < length ps \<longrightarrow> (\<forall>lv. childOk lv (ps ! p) \<longrightarrow> childOk lv pg)) \<Longrightarrow> extends ps (ps[p := pg])"
  by (cases "p < length ps") (auto simp: extends_def nth_list_update)

lemma childOk_NonLeaf [simp]: "childOk lv (NonLeafPage n) = (lv = level n + 1)"
  by (simp add: childOk_def)

lemma childOk_Leaf [simp]: "childOk lv (LeafPage l) = (lv = 2)"
  by (simp add: childOk_def)

lemma childOk_other [simp]:
  "childOk lv BlankPage = False" "childOk lv FileHeader = False" "childOk lv (MetaPage m) = False"
  by (simp_all add: childOk_def)

lemma nodeInv_extends: "nodeInv t ps n \<Longrightarrow> extends ps ps' \<Longrightarrow> nodeInv t ps' n"
  by (fastforce simp: nodeInv_def extends_def)

lemma nonLeafSlot_range:
  "nonLeafSlot t n key i0 = Some i \<Longrightarrow> i0 \<le> NONLEAFSIZE t \<Longrightarrow>
   length (pageNoArray n) = NONLEAFSIZE t + 1 \<Longrightarrow>
   i0 \<le> i \<and> i \<le> NONLEAFSIZE t \<and> (\<forall>j. i0 < j \<and> j \<le> i \<longrightarrow> pageNoArray n ! j \<noteq> 0)"
proof (induction t n key i0 rule: nonLeafSlot.induct)
  case (1 t currPage keyValue i0)
  show ?case
  proof (cases "i0 < NONLEAFSIZE t")
    case False
    with "1.prems" show ?thesis
      by (subst (asm) nonLeafSlot.simps) auto
  next
    case True
    let ?p = "pageNoArray currPage ! (i0 + 1)"
    have g: "get (pageNoArray currPage) (i0 + 1) = Some ?p"
      using True "1.prems" by (simp add: get_def)
    show ?thesis
    proof (cases "?p = 0")
      case pz: True
      with "1.prems" True g show ?thesis
        by (subst (asm) nonLeafSlot.simps) auto
    next
      case pnz: False
      from "1.prems"(1) True g pnz obtain k where
        k: "get (nkeyArray currPage) i0 = Some k"
        and r: "(if k \<le> keyValue then nonLeafSlot t currPage keyValue (i0 + 1) else Some i0) = Some i"
        by (subst (asm) nonLeafSlot.simps) (auto simp: bind_eq_Some_conv)
      show ?thesis
      proof (cases "k \<le> keyValue")
        case False
        with r "1.prems" show ?thesis by auto
      next
        case kk: True
        with r have rec: "nonLeafSlot t currPage keyValue (i0 + 1) = Some i" by simp
        have "i0 + 1 \<le> i \<and> i \<le> NONLEAFSIZE t
              \<and> (\<forall>j. i0 + 1 < j \<and> j \<le> i \<longrightarrow> pageNoArray currPage ! j \<noteq> 0)"
          using "1.IH" [OF True g pnz k kk rec] True "1.prems" by simp
        with pnz show ?thesis
          by (metis Suc_eq_plus1 Suc_leI Suc_leD le_neq_implies_less)
      qed
    qed
  qed
qed

section \<open>The path of the descent\<close>

lemma pathOk_bufLog [simp]: "pathOk t (s\<lparr>bufLog := b\<rparr>) c lv path = pathOk t s c lv path"
  by (induction path arbitrary: c lv) auto

lemma metaAt_bufLog [simp]: "metaAt (s\<lparr>bufLog := b\<rparr>) = metaAt s"
  by (simp add: metaAt_def)

lemma rootMax_bufLog [simp]: "rootMax (s\<lparr>bufLog := b\<rparr>) = rootMax s"
  by (simp add: rootMax_def)

lemma grown_bufLog [simp]: "grown t (s\<lparr>bufLog := b\<rparr>) = grown t s"
  by (simp add: grown_def)

lemma pageInv_NonLeaf:
  "\<forall>p < length ps. pageInv t ps p \<Longrightarrow> p < length ps \<Longrightarrow> ps ! p = NonLeafPage n \<Longrightarrow> nodeInv t ps n"
  by (auto simp: pageInv_def split: Page.splits)

lemma pageInv_Leaf:
  "\<forall>p < length ps. pageInv t ps p \<Longrightarrow> p < length ps \<Longrightarrow> ps ! p = LeafPage l \<Longrightarrow> leafInv t p l"
  by (auto simp: pageInv_def split: Page.splits)

lemma grown_node: "grown t s \<Longrightarrow> nonLeafAt s p = Some n \<Longrightarrow> nodeInv t (pages s) n"
  by (auto simp: grown_def nonLeafAt_Some intro: pageInv_NonLeaf)

lemma grown_leaf: "grown t s \<Longrightarrow> leafAt s p = Some l \<Longrightarrow> leafInv t p l"
  by (auto simp: grown_def leafAt_Some intro: pageInv_Leaf)

lemma nodeInv_child:
  "nodeInv t ps n \<Longrightarrow> i \<le> NONLEAFSIZE t \<Longrightarrow> pageNoArray n ! i \<noteq> 0 \<Longrightarrow>
   pageNoArray n ! i < length ps \<and> childOk (level n) (ps ! (pageNoArray n ! i))"
  by (simp add: nodeInv_def)

lemma descend_path:
  "descend t k lvl s d lp path = Some (s', leaf, path') \<Longrightarrow> grown t s \<Longrightarrow>
   lp < length (pages s) \<Longrightarrow> childOk (lvl + 2 - d) (pages s ! lp) \<Longrightarrow> d \<le> lvl \<Longrightarrow>
   pathOk t s lp (lvl + 2 - d) path \<Longrightarrow>
   pathOk t s' leaf 2 path' \<and> (\<exists>l. leafAt s' leaf = Some l)"
proof (induction t k lvl s d lp path rule: descend.induct)
  case (1 t keyValue rootLevel s depth lastPage pathOfTraversal)
  show ?case
  proof (cases "depth < rootLevel")
    case False
    with "1.prems" have e: "s' = s" "leaf = lastPage" "path' = pathOfTraversal" "depth = rootLevel"
      by (simp_all add: descend.simps)
    have "\<exists>l. pages s ! lastPage = LeafPage l"
    proof (cases "pages s ! lastPage")
      case (NonLeafPage n)
      with "1.prems" have "nodeInv t (pages s) n"
        by (auto intro: grown_node simp: nonLeafAt_Some)
      with NonLeafPage "1.prems"(4) e show ?thesis by (simp add: nodeInv_def)
    qed (use "1.prems"(4) in simp_all)
    with e "1.prems" show ?thesis by (auto simp: leafAt_Some)
  next
    case True
    from "1.prems"(1) True obtain currPage k0 i child s1 tempPage where
      a: "nonLeafAt s lastPage = Some currPage"
      and b: "get (nkeyArray currPage) 0 = Some k0"
      and c: "(if keyValue < k0 then Some 0 else nonLeafSlot t currPage keyValue 0) = Some i"
      and d: "get (pageNoArray currPage) i = Some child"
      and e: "readPage (unPinPage s lastPage) child = Some (s1, tempPage)"
      and f: "descend t keyValue rootLevel s1 (depth + 1) child ((i, lastPage) # pathOfTraversal)
                = Some (s', leaf, path')"
      by (subst (asm) descend.simps) (auto simp: bind_eq_Some_conv)
    have ni: "nodeInv t (pages s) currPage"
      using a "1.prems"(2) by (rule grown_node [rotated])
    have lv: "level currPage = rootLevel + 1 - depth"
      using a "1.prems"(4) True by (auto simp: nonLeafAt_Some)
    have ir: "i \<le> NONLEAFSIZE t \<and> (\<forall>j. 0 < j \<and> j \<le> i \<longrightarrow> pageNoArray currPage ! j \<noteq> 0)"
    proof (cases "keyValue < k0")
      case True with c show ?thesis by auto
    next
      case False
      with c have "nonLeafSlot t currPage keyValue 0 = Some i" by simp
      from nonLeafSlot_range [OF this] ni show ?thesis by (simp add: nodeInv_def)
    qed
    have s1: "s1 = s\<lparr>bufLog := bufLog s @ [Unpin lastPage, Pin child]\<rparr>"
      and ch: "0 < child" "child < length (pages s)"
      using e by (auto simp: readPage_def unPinPage_def split: if_splits)
    have ci: "child = pageNoArray currPage ! i" using d by (simp add: get_Some_iff)
    have ck: "childOk (level currPage) (pages s ! child)"
      using nodeInv_child [OF ni, of i] ir ch ci by simp
    have p1: "pathOk t s1 child (rootLevel + 2 - (depth + 1)) ((i, lastPage) # pathOfTraversal)"
    proof -
      have "rootLevel + 2 - (depth + 1) = rootLevel + 1 - depth" by simp
      moreover have "rootLevel + 1 - depth + 1 = rootLevel + 2 - depth" using True by simp
      ultimately show ?thesis
        using a lv ir ci ch "1.prems"(6) by (simp add: s1)
    qed
    have "pathOk t s' leaf 2 path' \<and> (\<exists>l. leafAt s' leaf = Some l)"
    proof (rule "1.IH" [OF True a b c d e refl f])
      show "grown t s1" using "1.prems"(2) by (simp add: s1)
      show "child < length (pages s1)" using ch by (simp add: s1)
      show "childOk (rootLevel + 2 - (depth + 1)) (pages s1 ! child)"
        using ck lv by (simp add: s1)
      show "depth + 1 \<le> rootLevel" using True by simp
      show "pathOk t s1 child (rootLevel + 2 - (depth + 1)) ((i, lastPage) # pathOfTraversal)"
        by (rule p1)
    qed
    then show ?thesis .
  qed
qed

section \<open>Nodes after a split\<close>

lemma withSlot_nth:
  "n < length xs \<Longrightarrow>
   withSlot xs a i v ! n = (if n = a then v else if a < n \<and> n \<le> i then xs ! (n - 1) else xs ! n)"
  by (simp add: withSlot_def)

lemma set_withSlot: "set (withSlot xs a i v) \<subseteq> insert v (set xs)"
proof
  fix x assume "x \<in> set (withSlot xs a i v)"
  then obtain n where n: "n < length xs" "x = withSlot xs a i v ! n"
    by (auto simp: in_set_conv_nth)
  have "n - 1 < length xs" using n(1) by simp
  then have "xs ! (n - 1) \<in> set xs" "xs ! n \<in> set xs" using n(1) by simp_all
  with n show "x \<in> insert v (set xs)" by (simp add: withSlot_nth)
qed

lemma nodeInv_left:
  assumes "nodeInv t ps pd" "traitsOk t"
  shows "nodeInv t ps (pd\<lparr>nkeyArray := take (NONLEAFSIZE t div 2) (nkeyArray pd)
                                @ replicate (NONLEAFSIZE t - NONLEAFSIZE t div 2) 0,
               pageNoArray := take (NONLEAFSIZE t div 2 + 1) (pageNoArray pd)
                                @ replicate (NONLEAFSIZE t - NONLEAFSIZE t div 2) 0\<rparr>)"
proof -
  have m: "1 \<le> NONLEAFSIZE t div 2" "NONLEAFSIZE t div 2 \<le> NONLEAFSIZE t"
    using assms(2) by (auto simp: traitsOk_def)
  have s: "set (take (NONLEAFSIZE t div 2 + 1) (pageNoArray pd)) \<subseteq> set (pageNoArray pd)"
    by (rule set_take_subset)
  show ?thesis
    using assms(1) m s by (auto simp: nodeInv_def nth_append)
qed

lemma nodeInv_right:
  assumes "nodeInv t ps pd" "traitsOk t" "\<forall>j. j \<le> NONLEAFSIZE t \<longrightarrow> pageNoArray pd ! j \<noteq> 0"
  shows "nodeInv t ps \<lparr>level = level pd,
              nkeyArray = drop (NONLEAFSIZE t div 2 + 1) (nkeyArray pd)
                            @ replicate (NONLEAFSIZE t div 2 + 1) 0,
              pageNoArray = drop (NONLEAFSIZE t div 2 + 1) (pageNoArray pd)
                            @ replicate (NONLEAFSIZE t div 2 + 1) 0\<rparr>"
proof -
  have m: "NONLEAFSIZE t div 2 + 2 \<le> NONLEAFSIZE t"
    using assms(2) by (auto simp: traitsOk_def)
  have s: "set (drop (NONLEAFSIZE t div 2 + 1) (pageNoArray pd)) \<subseteq> set (pageNoArray pd)"
    by (rule set_drop_subset)
  have a: "pageNoArray pd ! (NONLEAFSIZE t div 2 + 1) \<noteq> 0"
    "pageNoArray pd ! (NONLEAFSIZE t div 2 + 2) \<noteq> 0"
    using assms(3) m by simp_all
  show ?thesis
    using assms(1) m s a by (auto simp: nodeInv_def nth_append)
qed

lemma nodeInv_withSlot:
  assumes "length (nkeyArray n) = NONLEAFSIZE t" "length (pageNoArray n) = NONLEAFSIZE t + 1"
    and "2 \<le> level n" "pageNoArray n ! 0 \<noteq> 0" "a \<noteq> 0 \<longrightarrow> pageNoArray n ! 1 \<noteq> 0"
    and "\<forall>c \<in> set (pageNoArray n). c \<noteq> 0 \<longrightarrow> c < length ps \<and> childOk (level n) (ps ! c)"
    and "r \<noteq> 0" "r < length ps" "childOk (level n) (ps ! r)" "1 \<le> NONLEAFSIZE t"
  shows "nodeInv t ps (n\<lparr>nkeyArray := withSlot (nkeyArray n) a i key,
                          pageNoArray := withSlot (pageNoArray n) (Suc a) k r\<rparr>)"
proof -
  have "\<forall>c \<in> set (withSlot (pageNoArray n) (Suc a) k r).
          c \<noteq> 0 \<longrightarrow> c < length ps \<and> childOk (level n) (ps ! c)"
    using set_withSlot [of "pageNoArray n" "Suc a" k r] assms(6,8,9) by auto
  moreover have "withSlot (pageNoArray n) (Suc a) k r ! 0 \<noteq> 0"
    using assms(2,4) by (simp add: withSlot_nth)
  moreover have "withSlot (pageNoArray n) (Suc a) k r ! 1 \<noteq> 0"
    using assms(2,5,7,10) by (simp add: withSlot_nth)
  ultimately show ?thesis
    using assms(1,2,3) by (simp add: nodeInv_def)
qed

section \<open>The file after a step\<close>

lemma extends_kind:
  assumes "length ps \<le> length ps'"
    and "\<forall>p < length ps. ps' ! p = ps ! p
           \<or> (\<exists>n n'. ps ! p = NonLeafPage n \<and> ps' ! p = NonLeafPage n' \<and> level n' = level n)
           \<or> (\<exists>l l'. ps ! p = LeafPage l \<and> ps' ! p = LeafPage l')"
  shows "extends ps ps'"
  unfolding extends_def
proof (intro conjI allI impI)
  fix c lv assume c: "c < length ps" "childOk lv (ps ! c)"
  from assms(2) c(1) consider "ps' ! c = ps ! c"
    | n n' where "ps ! c = NonLeafPage n" "ps' ! c = NonLeafPage n'" "level n' = level n"
    | l l' where "ps ! c = LeafPage l" "ps' ! c = LeafPage l'"
    by blast
  then show "childOk lv (ps' ! c)" using c(2) by cases simp_all
qed (rule assms(1))

lemma pageInv_step:
  assumes "\<forall>p < length ps. pageInv t ps p" "extends ps ps'"
    and "\<forall>p < length ps'. (p < length ps \<and> ps' ! p = ps ! p)
           \<or> (\<exists>n. ps' ! p = NonLeafPage n \<and> nodeInv t ps' n)
           \<or> (\<exists>l. ps' ! p = LeafPage l \<and> leafInv t p l)"
  shows "\<forall>p < length ps'. pageInv t ps' p"
proof (intro allI impI)
  fix p assume p: "p < length ps'"
  from assms(3) p consider "p < length ps" "ps' ! p = ps ! p"
    | n where "ps' ! p = NonLeafPage n" "nodeInv t ps' n"
    | l where "ps' ! p = LeafPage l" "leafInv t p l"
    by blast
  then show "pageInv t ps' p"
  proof cases
    case 1
    with assms(1) have pi: "pageInv t ps p" by simp
    show ?thesis
    proof (cases "ps ! p")
      case (NonLeafPage n)
      with pi have "nodeInv t ps n" by (simp add: pageInv_def)
      then have "nodeInv t ps' n" using assms(2) by (rule nodeInv_extends)
      with NonLeafPage 1 show ?thesis by (simp add: pageInv_def)
    qed (use pi 1 in \<open>simp_all add: pageInv_def\<close>)
  qed (simp_all add: pageInv_def)
qed

lemma split_store:
  assumes inv: "\<forall>p < length ps. pageInv t ps p" and tr: "traitsOk t"
    and pid: "pid < length ps" "ps ! pid = NonLeafPage pd"
    and full: "\<forall>j. j \<le> NONLEAFSIZE t \<longrightarrow> pageNoArray pd ! j \<noteq> 0"
    and A: "length ps \<le> length ps1" and B: "\<forall>p < length ps. ps1 ! p = ps ! p"
    and C: "pp < length ps1" and D: "\<forall>p. length ps \<le> p \<and> p < length ps1 \<longrightarrow> p = pp"
    and E: "pp \<noteq> pid" and K: "pp < length ps \<longrightarrow> ps ! pp = NonLeafPage nrd0"
    and F: "length (nkeyArray nrd0) = NONLEAFSIZE t" "length (pageNoArray nrd0) = NONLEAFSIZE t + 1"
      "level nrd0 = level pd + 1" "pageNoArray nrd0 ! 0 \<noteq> 0" "ppo \<noteq> 0 \<longrightarrow> pageNoArray nrd0 ! 1 \<noteq> 0"
      "\<forall>c \<in> set (pageNoArray nrd0). c \<noteq> 0 \<longrightarrow> c < length ps \<and> childOk (level nrd0) (ps ! c)"
    and nrd: "nrd = nrd0\<lparr>nkeyArray := withSlot (nkeyArray nrd0) ppo i median,
                          pageNoArray := withSlot (pageNoArray nrd0) (Suc ppo) kk (length ps1)\<rparr>"
    and pl: "pl = pd\<lparr>nkeyArray := take (NONLEAFSIZE t div 2) (nkeyArray pd)
                                @ replicate (NONLEAFSIZE t - NONLEAFSIZE t div 2) 0,
               pageNoArray := take (NONLEAFSIZE t div 2 + 1) (pageNoArray pd)
                                @ replicate (NONLEAFSIZE t - NONLEAFSIZE t div 2) 0\<rparr>"
    and pr: "pr = \<lparr>level = level pd,
              nkeyArray = drop (NONLEAFSIZE t div 2 + 1) (nkeyArray pd)
                            @ replicate (NONLEAFSIZE t div 2 + 1) 0,
              pageNoArray = drop (NONLEAFSIZE t div 2 + 1) (pageNoArray pd)
                            @ replicate (NONLEAFSIZE t div 2 + 1) 0\<rparr>"
    and ps': "ps' = (ps1 @ [BlankPage])[pid := NonLeafPage pl, pp := NonLeafPage nrd,
                                        length ps1 := NonLeafPage pr]"
  shows "\<forall>p < length ps'. pageInv t ps' p"
    and "\<forall>p < length ps'. ps' ! p = (if p = length ps1 then NonLeafPage pr
           else if p = pp then NonLeafPage nrd else if p = pid then NonLeafPage pl else ps ! p)"
    and "length ps' = length ps1 + 1"
proof -
  show len: "length ps' = length ps1 + 1" by (simp add: ps')
  show nth: "\<forall>p < length ps'. ps' ! p = (if p = length ps1 then NonLeafPage pr
           else if p = pp then NonLeafPage nrd else if p = pid then NonLeafPage pl else ps ! p)"
  proof (intro allI impI)
    fix p assume p: "p < length ps'"
    have "p \<noteq> length ps1 \<Longrightarrow> p \<noteq> pp \<Longrightarrow> p < length ps"
      using D p len by (metis Suc_eq_plus1 less_Suc_eq not_le_imp_less)
    then show "ps' ! p = (if p = length ps1 then NonLeafPage pr
           else if p = pp then NonLeafPage nrd else if p = pid then NonLeafPage pl else ps ! p)"
      using p A B C E pid(1) by (auto simp: ps' nth_list_update nth_append)
  qed
  have lv: "level pl = level pd" "level pr = level pd" "level nrd = level pd + 1"
    by (simp_all add: pl pr nrd F(3))
  have ext: "extends ps ps'"
  proof (rule extends_kind)
    show "length ps \<le> length ps'" using A len by simp
    show "\<forall>p<length ps. ps' ! p = ps ! p
           \<or> (\<exists>n n'. ps ! p = NonLeafPage n \<and> ps' ! p = NonLeafPage n' \<and> level n' = level n)
           \<or> (\<exists>l l'. ps ! p = LeafPage l \<and> ps' ! p = LeafPage l')"
    proof (intro allI impI)
      fix p assume p: "p < length ps"
      then have "p < length ps'" "p \<noteq> length ps1" using A len by simp_all
      with nth have "ps' ! p = (if p = pp then NonLeafPage nrd
                                else if p = pid then NonLeafPage pl else ps ! p)" by simp
      then show "ps' ! p = ps ! p
           \<or> (\<exists>n n'. ps ! p = NonLeafPage n \<and> ps' ! p = NonLeafPage n' \<and> level n' = level n)
           \<or> (\<exists>l l'. ps ! p = LeafPage l \<and> ps' ! p = LeafPage l')"
        using K p pid(2) lv F(3) by (auto split: if_splits)
    qed
  qed
  have ni: "nodeInv t ps pd" using inv pid by (rule pageInv_NonLeaf)
  have nl: "nodeInv t ps' pl"
    unfolding pl using nodeInv_left [OF ni tr] ext by (rule nodeInv_extends)
  have nr: "nodeInv t ps' pr"
    unfolding pr using nodeInv_right [OF ni tr full] ext by (rule nodeInv_extends)
  have r: "ps' ! length ps1 = NonLeafPage pr" using nth len by simp
  have nn: "nodeInv t ps' nrd"
    unfolding nrd
  proof (rule nodeInv_withSlot)
    show "\<forall>c\<in>set (pageNoArray nrd0). c \<noteq> 0 \<longrightarrow> c < length ps' \<and> childOk (level nrd0) (ps' ! c)"
      using F(6) ext by (auto simp: extends_def)
    show "length ps1 \<noteq> 0" using A pid(1) by auto
    show "length ps1 < length ps'" using len by simp
    show "childOk (level nrd0) (ps' ! length ps1)" using r lv F(3) by simp
    show "1 \<le> NONLEAFSIZE t" using tr by (simp add: traitsOk_def)
    show "2 \<le> level nrd0" using F(3) ni by (simp add: nodeInv_def)
  qed (use F in simp_all)
  show "\<forall>p < length ps'. pageInv t ps' p"
    using inv ext
  proof (rule pageInv_step)
    show "\<forall>p<length ps'. (p < length ps \<and> ps' ! p = ps ! p)
           \<or> (\<exists>n. ps' ! p = NonLeafPage n \<and> nodeInv t ps' n)
           \<or> (\<exists>l. ps' ! p = LeafPage l \<and> leafInv t p l)"
    proof (intro allI impI)
      fix p assume p: "p < length ps'"
      have "p \<noteq> length ps1 \<Longrightarrow> p \<noteq> pp \<Longrightarrow> p < length ps"
        using D p len by (metis Suc_eq_plus1 less_Suc_eq not_le_imp_less)
      then show "(p < length ps \<and> ps' ! p = ps ! p)
           \<or> (\<exists>n. ps' ! p = NonLeafPage n \<and> nodeInv t ps' n)
           \<or> (\<exists>l. ps' ! p = LeafPage l \<and> leafInv t p l)"
        using nth p nl nr nn by auto
    qed
  qed
qed

section \<open>The split of a full non-leaf node keeps the invariant\<close>

lemma state_upd:
  "s' = s1\<lparr>pages := X, bufLog := b\<rparr> \<Longrightarrow>
   pages s' = X \<and> rootPageNum s' = rootPageNum s1 \<and> headerPageNum s' = headerPageNum s1"
  by simp

lemma pathOk_frame:
  "pathOk t s c lv path \<Longrightarrow> rootPageNum s' = rootPageNum s \<Longrightarrow>
   \<forall>p n. nonLeafAt s p = Some n \<and> lv \<le> level n \<longrightarrow> nonLeafAt s' p = Some n \<Longrightarrow>
   pathOk t s' c lv path"
proof (induction path arbitrary: c lv)
  case Nil
  then show ?case by simp
next
  case (Cons a path)
  obtain i p where a: "a = (i, p)" by (cases a)
  from Cons.prems(1) obtain n where
    n: "nonLeafAt s p = Some n" "level n = lv" "i \<le> NONLEAFSIZE t" "pageNoArray n ! i = c" "c \<noteq> 0"
       "\<forall>j. 1 \<le> j \<and> j \<le> i \<longrightarrow> pageNoArray n ! j \<noteq> 0" "pathOk t s p (lv + 1) path"
    by (auto simp: a)
  have "nonLeafAt s' p = Some n" using Cons.prems(3) n(1,2) by simp
  moreover have "pathOk t s' p (lv + 1) path"
    using n(7) Cons.prems(2)
  proof (rule Cons.IH)
    show "\<forall>p n. nonLeafAt s p = Some n \<and> lv + 1 \<le> level n \<longrightarrow> nonLeafAt s' p = Some n"
      using Cons.prems(3) by auto
  qed
  ultimately show ?case using n by (auto simp: a)
qed

lemma pathOk_top:
  "pathOk t s c lv path \<Longrightarrow> rootMax s \<Longrightarrow> nonLeafAt s c = Some n \<Longrightarrow> level n + 1 = lv \<Longrightarrow>
   path \<noteq> [] \<Longrightarrow> c \<noteq> rootPageNum s \<and> (\<exists>r. nonLeafAt s (rootPageNum s) = Some r \<and> lv \<le> level r)"
proof (cases path)
  case Nil
  assume "path \<noteq> []" with Nil show ?thesis by simp
next
  case (Cons a rest)
  assume p: "pathOk t s c lv path" and r: "rootMax s" and n: "nonLeafAt s c = Some n"
    and l: "level n + 1 = lv"
  obtain i q where a: "a = (i, q)" by (cases a)
  from p Cons a obtain m where m: "nonLeafAt s q = Some m" "level m = lv" by auto
  from r obtain rt where rt: "nonLeafAt s (rootPageNum s) = Some rt"
    "\<forall>p n. nonLeafAt s p = Some n \<and> p \<noteq> rootPageNum s \<longrightarrow> level n < level rt"
    by (auto simp: rootMax_def)
  have "lv \<le> level rt"
    using rt m by (cases "q = rootPageNum s") (auto dest: less_imp_le)
  moreover have "c \<noteq> rootPageNum s"
    using rt(1) n l \<open>lv \<le> level rt\<close> by auto
  ultimately show ?thesis using rt(1) by simp
qed

lemma grown_meta: "grown t s \<Longrightarrow> \<exists>m. 1 < length (pages s) \<and> pages s ! 1 = MetaPage m"
  by (auto simp: grown_def metaAt_def split: if_splits Page.splits)

lemma splitParent_grown:
  assumes sp: "splitParent t k s offset pid pd rest dn G = Some (s', G')"
    and g: "grown t s" and tr: "traitsOk t"
    and pd: "nonLeafAt s pid = Some pd" and pz: "pid \<noteq> 0"
    and full: "\<forall>j. j \<le> NONLEAFSIZE t \<longrightarrow> pageNoArray pd ! j \<noteq> 0"
    and path: "pathOk t s pid (level pd + 1) rest"
  shows "grown t s'"
    and "rest \<noteq> [] \<longrightarrow> pathOk t s' pid (level pd + 1) rest"
    and "\<forall>p n. nonLeafAt s p = Some n \<and> level n < level pd \<longrightarrow> nonLeafAt s' p = Some n"
    and "\<not> dn \<longrightarrow> (\<exists>gp goff g. G' = Some (gp, goff) \<and> nonLeafAt s' gp = Some g \<and> level g = level pd)"
    and "dn \<longrightarrow> G' = G"
    and "metaAt s' = metaAt s"
proof -
  from splitParent_Some [OF sp] obtain s1 nrd0 pp ppo median nrd pl pr where
    na: "nodeAbove t s pid pd rest = Some (s1, nrd0, pp, ppo)"
    and si: "shiftInsert t nrd0 ppo median (length (pages s1)) = Some nrd"
    and sn: "splitNonLeaf t pd = Some (pl, pr)"
    and s': "s' = s1\<lparr>pages := (pages s1 @ [BlankPage])[pid := NonLeafPage pl, pp := NonLeafPage nrd,
                                                   length (pages s1) := NonLeafPage pr],
               bufLog := bufLog s'\<rparr>"
    and G': "G' = (if dn = False
            then (if k \<ge> median
                  then Some (length (pages s1), int offset - int (NONLEAFSIZE t div 2) - 1)
                  else Some (pid, int offset))
            else G)"
    by blast
  let ?ps = "pages s"
  let ?ps' = "(pages s1 @ [BlankPage])[pid := NonLeafPage pl, pp := NonLeafPage nrd,
                                       length (pages s1) := NonLeafPage pr]"
  have inv: "\<forall>p < length ?ps. pageInv t ?ps p" and len4: "4 < length ?ps"
    and hd: "headerPageNum s = 1" and rm: "rootMax s"
    using g by (simp_all add: grown_def)
  from grown_meta [OF g] obtain mt where mt: "1 < length ?ps" "?ps ! 1 = MetaPage mt" by blast
  have pidl: "pid < length ?ps" "?ps ! pid = NonLeafPage pd"
    using pd by (simp_all add: nonLeafAt_Some)
  have ni: "nodeInv t ?ps pd" using g pd by (rule grown_node)
  have sz: "length (nkeyArray pd) = NONLEAFSIZE t" "length (pageNoArray pd) = NONLEAFSIZE t + 1"
    "1 \<le> NONLEAFSIZE t" "2 \<le> level pd"
    using ni tr by (simp_all add: nodeInv_def traitsOk_def)
  have plr: "pl = pd\<lparr>nkeyArray := take (NONLEAFSIZE t div 2) (nkeyArray pd)
                                @ replicate (NONLEAFSIZE t - NONLEAFSIZE t div 2) 0,
               pageNoArray := take (NONLEAFSIZE t div 2 + 1) (pageNoArray pd)
                                @ replicate (NONLEAFSIZE t - NONLEAFSIZE t div 2) 0\<rparr>"
    "pr = \<lparr>level = level pd,
              nkeyArray = drop (NONLEAFSIZE t div 2 + 1) (nkeyArray pd)
                            @ replicate (NONLEAFSIZE t div 2 + 1) 0,
              pageNoArray = drop (NONLEAFSIZE t div 2 + 1) (pageNoArray pd)
                            @ replicate (NONLEAFSIZE t div 2 + 1) 0\<rparr>"
    using sn splitNonLeaf_result [OF sz(1,2,3)] by simp_all
  have lv: "level pl = level pd" "level pr = level pd" by (simp_all add: plr)
  have st: "pages s' = ?ps'" "rootPageNum s' = rootPageNum s1" "headerPageNum s' = headerPageNum s1"
    using state_upd [OF s'] by simp_all
  show "dn \<longrightarrow> G' = G" by (simp add: G')
  have "grown t s' \<and> (rest \<noteq> [] \<longrightarrow> pathOk t s' pid (level pd + 1) rest)
       \<and> (\<forall>p n. nonLeafAt s p = Some n \<and> level n < level pd \<longrightarrow> nonLeafAt s' p = Some n)
       \<and> (\<not> dn \<longrightarrow> (\<exists>gp goff g. G' = Some (gp, goff) \<and> nonLeafAt s' gp = Some g \<and> level g = level pd))
       \<and> metaAt s' = metaAt s"
  proof (cases rest)
    case Nil
    from nodeAbove_Nil [OF na [unfolded Nil]] have
      s1: "s1 = s\<lparr>pages := ?ps @ [BlankPage], bufLog := bufLog s @ [Pin (length ?ps)],
                  rootPageNum := length ?ps\<rparr>"
      and pp: "pp = length ?ps" "ppo = 0"
      and nrd0: "nrd0 = \<lparr>level = level pd + 1, nkeyArray = replicate (NONLEAFSIZE t) 0,
              pageNoArray = (replicate (NONLEAFSIZE t + 1) 0)[0 := pid]\<rparr>"
      by simp_all
    have root: "pid = rootPageNum s" using path Nil by simp
    have p1: "pages s1 = ?ps @ [BlankPage]" "rootPageNum s1 = length ?ps"
      "headerPageNum s1 = headerPageNum s"
      by (simp_all add: s1)
    have l0: "length (pageNoArray nrd0) = NONLEAFSIZE t + 1" "length (nkeyArray nrd0) = NONLEAFSIZE t"
      by (simp_all add: nrd0)
    from shiftInsert_result [OF si l0] obtain kk where
      nrd: "nrd = nrd0\<lparr>nkeyArray := withSlot (nkeyArray nrd0) ppo (kk - 1) median,
                      pageNoArray := withSlot (pageNoArray nrd0) (Suc ppo) kk (length (pages s1))\<rparr>"
      by blast
    have F6: "\<forall>c \<in> set (pageNoArray nrd0). c \<noteq> 0 \<longrightarrow> c < length ?ps \<and> childOk (level nrd0) (?ps ! c)"
    proof (intro ballI impI)
      fix c assume "c \<in> set (pageNoArray nrd0)" "c \<noteq> 0"
      then have "c = pid"
        using set_update_subset_insert [of "replicate (NONLEAFSIZE t + 1) 0" 0 pid]
        by (auto simp: nrd0)
      then show "c < length ?ps \<and> childOk (level nrd0) (?ps ! c)"
        using pidl by (simp add: nrd0)
    qed
    have ss: "\<forall>p < length ?ps'. pageInv t ?ps' p"
      "\<forall>p < length ?ps'. ?ps' ! p = (if p = length (pages s1) then NonLeafPage pr
           else if p = pp then NonLeafPage nrd else if p = pid then NonLeafPage pl else ?ps ! p)"
      "length ?ps' = length (pages s1) + 1"
    proof (rule_tac [!] split_store [OF inv tr pidl full _ _ _ _ _ _ l0(2) l0(1) _ _ _ F6 nrd plr refl])
    qed (use pidl pz in \<open>auto simp: p1 pp nrd0 nth_append\<close>)
    have nth: "\<And>p. p < length ?ps + 2 \<Longrightarrow> pages s' ! p = (if p = length ?ps + 1 then NonLeafPage pr
           else if p = length ?ps then NonLeafPage nrd else if p = pid then NonLeafPage pl else ?ps ! p)"
      using ss(2,3) by (simp add: st p1 pp)
    have len: "length (pages s') = length ?ps + 2" using ss(3) by (simp add: st p1)
    have nl: "\<And>p n. nonLeafAt s' p = Some n \<longleftrightarrow> p < length ?ps + 2 \<and>
            (if p = length ?ps + 1 then NonLeafPage pr
             else if p = length ?ps then NonLeafPage nrd else if p = pid then NonLeafPage pl else ?ps ! p)
             = NonLeafPage n"
      using nth len by (auto simp: nonLeafAt_Some)
    from rm obtain rt where rt: "nonLeafAt s (rootPageNum s) = Some rt"
      "\<forall>p n. nonLeafAt s p = Some n \<and> p \<noteq> rootPageNum s \<longrightarrow> level n < level rt"
      by (auto simp: rootMax_def)
    have rtpd: "rt = pd" using rt(1) pd root by simp
    have "rootMax s'"
      unfolding rootMax_def
    proof (intro exI conjI allI impI)
      show "nonLeafAt s' (rootPageNum s') = Some nrd" by (simp add: nl st p1)
      fix p n assume a: "nonLeafAt s' p = Some n \<and> p \<noteq> rootPageNum s'"
      then have b: "p < length ?ps + 2" "p \<noteq> length ?ps"
        and c: "(if p = length ?ps + 1 then NonLeafPage pr
                 else if p = pid then NonLeafPage pl else ?ps ! p) = NonLeafPage n"
        by (auto simp: nl st p1 split: if_splits)
      have "level n \<le> level pd"
      proof (cases "p = length ?ps + 1 \<or> p = pid")
        case True with c lv show ?thesis by (auto split: if_splits)
      next
        case False
        with b c have "nonLeafAt s p = Some n" "p \<noteq> rootPageNum s"
          by (auto simp: nonLeafAt_Some root)
        with rt(2) rtpd show ?thesis by (auto dest: less_imp_le)
      qed
      then show "level n < level nrd" by (simp add: nrd nrd0)
    qed
    moreover have ma: "metaAt s' = metaAt s"
      using mt pidl nth [of 1] len hd by (auto simp: metaAt_def st p1)
    then have "metaAt s' \<noteq> None" using mt hd by (simp add: metaAt_def)
    ultimately have G: "grown t s'"
      using ss(1) len len4 hd by (simp add: grown_def st p1)
    have fr: "\<forall>p n. nonLeafAt s p = Some n \<and> level n < level pd \<longrightarrow> nonLeafAt s' p = Some n"
      using pidl by (auto simp: nonLeafAt_Some len nth)
    have gg: "\<not> dn \<longrightarrow> (\<exists>gp goff g. G' = Some (gp, goff) \<and> nonLeafAt s' gp = Some g \<and> level g = level pd)"
      using lv pidl by (auto simp: G' nl p1)
    show "grown t s' \<and> (rest \<noteq> [] \<longrightarrow> pathOk t s' pid (level pd + 1) rest)
       \<and> (\<forall>p n. nonLeafAt s p = Some n \<and> level n < level pd \<longrightarrow> nonLeafAt s' p = Some n)
       \<and> (\<not> dn \<longrightarrow> (\<exists>gp goff g. G' = Some (gp, goff) \<and> nonLeafAt s' gp = Some g \<and> level g = level pd))
       \<and> metaAt s' = metaAt s"
      using G fr gg Nil ma by simp
  next
    case (Cons a rest')
    obtain i q where a: "a = (i, q)" by (cases a)
    from nodeAbove_Cons [OF na [unfolded Cons a]] have
      s1: "s1 = s\<lparr>bufLog := bufLog s @ [Pin q]\<rparr>"
      and pp: "pp = q" "ppo = i" and q: "nonLeafAt s q = Some nrd0"
      by simp_all
    from path Cons a have
      pq: "level nrd0 = level pd + 1" "i \<le> NONLEAFSIZE t" "pageNoArray nrd0 ! i = pid" "pid \<noteq> 0"
        "\<forall>j. 1 \<le> j \<and> j \<le> i \<longrightarrow> pageNoArray nrd0 ! j \<noteq> 0"
        "pathOk t s q (level pd + 1 + 1) rest'"
      using q by auto
    have p1: "pages s1 = ?ps" "rootPageNum s1 = rootPageNum s" "headerPageNum s1 = headerPageNum s"
      by (simp_all add: s1)
    have qi: "nodeInv t ?ps nrd0" using g q by (rule grown_node)
    have ql: "q < length ?ps" "?ps ! q = NonLeafPage nrd0"
      using q by (simp_all add: nonLeafAt_Some)
    have l0: "length (pageNoArray nrd0) = NONLEAFSIZE t + 1" "length (nkeyArray nrd0) = NONLEAFSIZE t"
      using qi by (simp_all add: nodeInv_def)
    from shiftInsert_result [OF si l0] obtain kk where
      nrd: "nrd = nrd0\<lparr>nkeyArray := withSlot (nkeyArray nrd0) ppo (kk - 1) median,
                      pageNoArray := withSlot (pageNoArray nrd0) (Suc ppo) kk (length (pages s1))\<rparr>"
      by blast
    have qp: "q \<noteq> pid" using ql pidl pq(1) by auto
    have ss: "\<forall>p < length ?ps'. pageInv t ?ps' p"
      "\<forall>p < length ?ps'. ?ps' ! p = (if p = length (pages s1) then NonLeafPage pr
           else if p = pp then NonLeafPage nrd else if p = pid then NonLeafPage pl else ?ps ! p)"
      "length ?ps' = length (pages s1) + 1"
    proof (rule_tac [!] split_store [OF inv tr pidl full _ _ _ _ _ _ l0(2) l0(1) _ _ _ _ nrd plr refl])
    qed (use qi ql qp pq(1) in \<open>auto simp: p1 pp nodeInv_def\<close>)
    have nth: "\<And>p. p < length ?ps + 1 \<Longrightarrow> pages s' ! p = (if p = length ?ps then NonLeafPage pr
           else if p = q then NonLeafPage nrd else if p = pid then NonLeafPage pl else ?ps ! p)"
      using ss(2,3) by (simp add: st p1 pp)
    have len: "length (pages s') = length ?ps + 1" using ss(3) by (simp add: st p1)
    have nl: "\<And>p n. nonLeafAt s' p = Some n \<longleftrightarrow> p < length ?ps + 1 \<and>
            (if p = length ?ps then NonLeafPage pr
             else if p = q then NonLeafPage nrd else if p = pid then NonLeafPage pl else ?ps ! p)
             = NonLeafPage n"
      using nth len by (auto simp: nonLeafAt_Some)
    from rm obtain rt where rt: "nonLeafAt s (rootPageNum s) = Some rt"
      "\<forall>p n. nonLeafAt s p = Some n \<and> p \<noteq> rootPageNum s \<longrightarrow> level n < level rt"
      by (auto simp: rootMax_def)
    have top: "pid \<noteq> rootPageNum s" "level pd + 1 \<le> level rt"
      using pathOk_top [OF path rm pd refl] rt(1) Cons by auto
    have lnrd: "level nrd = level nrd0" by (simp add: nrd)
    have same: "\<And>p n. nonLeafAt s' p = Some n \<Longrightarrow> p \<noteq> length ?ps \<Longrightarrow>
                  \<exists>n0. nonLeafAt s p = Some n0 \<and> level n0 = level n"
      using ql pidl lv lnrd by (auto simp: nonLeafAt_Some len nth split: if_splits)
    have "rootMax s'"
      unfolding rootMax_def
    proof (intro exI conjI allI impI)
      let ?r = "if rootPageNum s = q then nrd else rt"
      have rl: "rootPageNum s < length ?ps" "?ps ! rootPageNum s = NonLeafPage rt"
        using rt(1) by (simp_all add: nonLeafAt_Some)
      show r: "nonLeafAt s' (rootPageNum s') = Some ?r"
        using rl top(1) ql by (auto simp: nl st(2) p1(2))
      have lr: "level ?r = level rt" using rt(1) q lnrd by auto
      fix p n assume a: "nonLeafAt s' p = Some n \<and> p \<noteq> rootPageNum s'"
      show "level n < level ?r"
      proof (cases "p = length ?ps")
        case True
        with a have "n = pr" by (simp add: nl)
        with lv top(2) lr show ?thesis by simp
      next
        case False
        with same a obtain n0 where n0: "nonLeafAt s p = Some n0" "level n0 = level n" by blast
        from a have "p \<noteq> rootPageNum s" by (simp add: st p1)
        with rt(2) n0(1) have "level n0 < level rt" by blast
        then show ?thesis using lr n0(2) by simp
      qed
    qed
    moreover have ma: "metaAt s' = metaAt s"
      using mt pidl ql nth [of 1] len hd by (auto simp: metaAt_def st p1)
    then have "metaAt s' \<noteq> None" using mt hd by (simp add: metaAt_def)
    ultimately have G: "grown t s'"
      using ss(1) len len4 hd by (simp add: grown_def st p1)
    have fr: "\<forall>p n. nonLeafAt s p = Some n \<and> level n < level pd \<longrightarrow> nonLeafAt s' p = Some n"
      using pidl ql pq(1) by (auto simp: nonLeafAt_Some len nth)
    have gg: "\<not> dn \<longrightarrow> (\<exists>gp goff g. G' = Some (gp, goff) \<and> nonLeafAt s' gp = Some g \<and> level g = level pd)"
      using lv pidl qp by (auto simp: G' nl p1)
    have wi: "\<forall>j. j \<le> i \<longrightarrow> pageNoArray nrd ! j = pageNoArray nrd0 ! j"
      using pq(2) l0 by (simp add: nrd pp withSlot_nth)
    have "pathOk t s' q (level pd + 1 + 1) rest'"
      using pq(6)
    proof (rule pathOk_frame)
      show "rootPageNum s' = rootPageNum s" by (simp add: st p1)
      show "\<forall>p n. nonLeafAt s p = Some n \<and> level pd + 1 + 1 \<le> level n \<longrightarrow> nonLeafAt s' p = Some n"
        using pidl ql pq(1) by (auto simp: nonLeafAt_Some len nth)
    qed
    moreover have "nonLeafAt s' q = Some nrd" using ql by (simp add: nl)
    ultimately have po: "pathOk t s' pid (level pd + 1) rest"
      using pq wi lnrd by (simp add: Cons a)
    show "grown t s' \<and> (rest \<noteq> [] \<longrightarrow> pathOk t s' pid (level pd + 1) rest)
       \<and> (\<forall>p n. nonLeafAt s p = Some n \<and> level n < level pd \<longrightarrow> nonLeafAt s' p = Some n)
       \<and> (\<not> dn \<longrightarrow> (\<exists>gp goff g. G' = Some (gp, goff) \<and> nonLeafAt s' gp = Some g \<and> level g = level pd))
       \<and> metaAt s' = metaAt s"
      using G fr gg po ma by simp
  qed
  then show "grown t s'"
    and "rest \<noteq> [] \<longrightarrow> pathOk t s' pid (level pd + 1) rest"
    and "\<forall>p n. nonLeafAt s p = Some n \<and> level n < level pd \<longrightarrow> nonLeafAt s' p = Some n"
    and "\<not> dn \<longrightarrow> (\<exists>gp goff g. G' = Some (gp, goff) \<and> nonLeafAt s' gp = Some g \<and> level g = level pd)"
    and "metaAt s' = metaAt s"
    by blast+
qed

lemma splitParents_grown:
  "splitParents t k s path dn G = Some (s', G') \<Longrightarrow> grown t s \<Longrightarrow> traitsOk t \<Longrightarrow>
   pathOk t s child lv path \<Longrightarrow>
   (dn \<longrightarrow> (\<exists>gp goff g. G = Some (gp, goff) \<and> nonLeafAt s gp = Some g \<and> level g = 2 \<and> 2 < lv)) \<Longrightarrow>
   (\<not> dn \<longrightarrow> G = None \<and> lv = 2) \<Longrightarrow>
   grown t s' \<and> (\<forall>gp goff. G' = Some (gp, goff) \<longrightarrow> (\<exists>g. nonLeafAt s' gp = Some g \<and> level g = 2))
   \<and> metaAt s' = metaAt s"
proof (induction path arbitrary: s dn G child lv)
  case Nil
  then show ?case by (cases dn) auto
next
  case (Cons a path)
  obtain offset pid where a: "a = (offset, pid)" by (cases a)
  let ?s1 = "s\<lparr>bufLog := bufLog s @ [Pin pid]\<rparr>"
  let ?G1 = "if dn then G else Some (pid, int offset)"
  from splitParents_Cons [OF Cons.prems(1) [unfolded a]] obtain pd kk where
    pz: "0 < pid" and pd: "nonLeafAt s pid = Some pd"
    and fi: "firstInvalid t (pageNoArray pd) offset = Some kk"
    and cs: "(kk = NONLEAFSIZE t + 1
          \<and> (\<exists>s2 G2. splitParent t k ?s1 offset pid pd path dn ?G1 = Some (s2, G2)
                \<and> splitParents t k s2 path True G2 = Some (s', G')))
        \<or> (kk \<noteq> NONLEAFSIZE t + 1 \<and> G' = ?G1 \<and> G' \<noteq> None \<and> s' = s\<lparr>bufLog := bufLog s'\<rparr>)"
    by blast
  from Cons.prems(4) pd have
    pq: "level pd = lv" "offset \<le> NONLEAFSIZE t"
      "\<forall>j. 1 \<le> j \<and> j \<le> offset \<longrightarrow> pageNoArray pd ! j \<noteq> 0"
      "pathOk t s pid (lv + 1) path"
    by (auto simp: a)
  have ni: "nodeInv t (pages s) pd" using Cons.prems(2) pd by (rule grown_node)
  have l2: "2 \<le> lv" using ni pq(1) by (simp add: nodeInv_def)
  have G1: "\<exists>gp goff g. ?G1 = Some (gp, goff) \<and> nonLeafAt s gp = Some g \<and> level g = 2"
    using Cons.prems(5,6) pd pq(1) by (cases dn) auto
  from cs show ?case
  proof (elim disjE conjE exE)
    assume "kk \<noteq> NONLEAFSIZE t + 1" and g: "G' = ?G1" and s': "s' = s\<lparr>bufLog := bufLog s'\<rparr>"
    have "grown t s'" using Cons.prems(2) by (subst s') simp
    moreover have "\<And>p. nonLeafAt s' p = nonLeafAt s p" by (subst s') simp
    moreover have "metaAt s' = metaAt s" by (subst s') simp
    ultimately show ?thesis using G1 g by auto
  next
    fix s2 G2
    assume kk: "kk = NONLEAFSIZE t + 1"
      and sp: "splitParent t k ?s1 offset pid pd path dn ?G1 = Some (s2, G2)"
      and rec: "splitParents t k s2 path True G2 = Some (s', G')"
    have len: "length (pageNoArray pd) = NONLEAFSIZE t + 1" "pageNoArray pd ! 0 \<noteq> 0"
      using ni by (simp_all add: nodeInv_def)
    have up: "\<forall>j. offset \<le> j \<and> j < kk \<longrightarrow> pageNoArray pd ! j \<noteq> 0"
      using fi len(1) by (rule firstInvalid_Some) (use pq(2) in simp)
    have full: "\<forall>j. j \<le> NONLEAFSIZE t \<longrightarrow> pageNoArray pd ! j \<noteq> 0"
    proof (intro allI impI)
      fix j assume j: "j \<le> NONLEAFSIZE t"
      consider "j = 0" | "1 \<le> j" "j \<le> offset" | "offset \<le> j" "j < kk"
        using j kk by linarith
      then show "pageNoArray pd ! j \<noteq> 0"
        using len(2) pq(3) up by cases auto
    qed
    have sg: "grown t s2"
      "path \<noteq> [] \<longrightarrow> pathOk t s2 pid (level pd + 1) path"
      "\<forall>p n. nonLeafAt ?s1 p = Some n \<and> level n < level pd \<longrightarrow> nonLeafAt s2 p = Some n"
      "\<not> dn \<longrightarrow> (\<exists>gp goff g. G2 = Some (gp, goff) \<and> nonLeafAt s2 gp = Some g \<and> level g = level pd)"
      "dn \<longrightarrow> G2 = ?G1"
      "metaAt s2 = metaAt ?s1"
    proof (rule_tac [!] splitParent_grown [OF sp _ Cons.prems(3) _ _ full])
    qed (use Cons.prems(2) pd pz pq in simp_all)
    have G2: "\<exists>gp goff g. G2 = Some (gp, goff) \<and> nonLeafAt s2 gp = Some g \<and> level g = 2 \<and> 2 < lv + 1"
    proof (cases dn)
      case False
      with sg(4) Cons.prems(6) pq(1) show ?thesis by auto
    next
      case True
      with Cons.prems(5) obtain gp goff g where
        g: "G = Some (gp, goff)" "nonLeafAt s gp = Some g" "level g = 2" "2 < lv" by blast
      with sg(3) pq(1) have "nonLeafAt s2 gp = Some g" by simp
      with g sg(5) True show ?thesis by simp
    qed
    show ?thesis
    proof (cases path)
      case Nil
      with rec G2 sg(1,6) show ?thesis by auto
    next
      case (Cons b rest)
      then have "pathOk t s2 pid (lv + 1) path" using sg(2) pq(1) by simp
      from Cons.IH [OF rec sg(1) \<open>traitsOk t\<close> this] G2 sg(6) show ?thesis by simp
    qed
  qed
qed

section \<open>The split of a leaf and the insert keep the invariant\<close>

lemma rootMax_same:
  assumes "rootMax s" "rootPageNum s' = rootPageNum s"
    and "\<forall>p. map_option level (nonLeafAt s' p) = map_option level (nonLeafAt s p)"
  shows "rootMax s'"
proof -
  from assms(1) obtain rt where rt: "nonLeafAt s (rootPageNum s) = Some rt"
    "\<forall>p n. nonLeafAt s p = Some n \<and> p \<noteq> rootPageNum s \<longrightarrow> level n < level rt"
    by (auto simp: rootMax_def)
  have "map_option level (nonLeafAt s' (rootPageNum s)) = Some (level rt)"
    using assms(3) rt(1) by simp
  then obtain rt' where rt': "nonLeafAt s' (rootPageNum s) = Some rt'" "level rt' = level rt"
    by auto
  have "\<forall>p n. nonLeafAt s' p = Some n \<and> p \<noteq> rootPageNum s \<longrightarrow> level n < level rt'"
  proof (intro allI impI)
    fix p n assume a: "nonLeafAt s' p = Some n \<and> p \<noteq> rootPageNum s"
    then have "map_option level (nonLeafAt s p) = Some (level n)"
      using assms(3) [rule_format, of p] by simp
    then obtain n0 where n0: "nonLeafAt s p = Some n0" "level n0 = level n"
      by auto
    from a have "p \<noteq> rootPageNum s" by simp
    with rt(2) n0(1) have "level n0 < level rt" by blast
    then show "level n < level rt'" using rt'(2) n0(2) by simp
  qed
  with rt' show ?thesis by (auto simp: rootMax_def assms(2))
qed

lemma leaf_write_grown:
  assumes g: "grown t s" and l: "leafAt s p = Some l" and li: "leafInv t p l'"
    and s': "s' = s\<lparr>pages := (pages s)[p := LeafPage l'], bufLog := b\<rparr>"
  shows "grown t s' \<and> metaAt s' = metaAt s"
proof -
  let ?ps = "pages s"
  define ps' where "ps' = (pages s)[p := LeafPage l']"
  have st: "pages s' = ps'" "rootPageNum s' = rootPageNum s" "headerPageNum s' = headerPageNum s"
    by (simp_all add: s' ps'_def)
  have pl: "p < length ?ps" "?ps ! p = LeafPage l" using l by (simp_all add: leafAt_Some)
  have len: "length ps' = length ?ps" by (simp add: ps'_def)
  have nth: "\<And>q. q < length ?ps \<Longrightarrow> ps' ! q = (if q = p then LeafPage l' else ?ps ! q)"
    by (simp add: ps'_def nth_list_update)
  have inv: "\<forall>p < length ?ps. pageInv t ?ps p" and len4: "4 < length ?ps"
    and hd: "headerPageNum s = 1" and rm: "rootMax s"
    using g by (simp_all add: grown_def)
  from grown_meta [OF g] obtain mt where mt: "1 < length ?ps" "?ps ! 1 = MetaPage mt" by blast
  have ext: "extends ?ps ps'"
    unfolding ps'_def by (rule extends_update) (simp add: pl)
  have "\<forall>q < length ps'. pageInv t ps' q"
    using inv ext
  proof (rule pageInv_step)
    show "\<forall>q<length ps'. (q < length ?ps \<and> ps' ! q = ?ps ! q)
           \<or> (\<exists>n. ps' ! q = NonLeafPage n \<and> nodeInv t ps' n)
           \<or> (\<exists>l. ps' ! q = LeafPage l \<and> leafInv t q l)"
      using li by (simp add: len nth)
  qed
  moreover have na: "\<forall>q. nonLeafAt s' q = nonLeafAt s q"
    using pl by (auto simp: nonLeafAt_def st len nth)
  have "rootMax s'"
    by (rule rootMax_same [OF rm]) (simp_all add: st na)
  moreover have ma: "metaAt s' = metaAt s"
    using mt pl hd by (auto simp: metaAt_def st len nth)
  then have "metaAt s' \<noteq> None" using mt hd by (simp add: metaAt_def)
  ultimately show ?thesis using len4 hd ma by (simp add: grown_def st len)
qed

lemma splitLeaf_grown:
  assumes sl: "splitLeaf t k s lastPage insertAt (gp, goff) = Some (s', out)"
    and g: "grown t s" and tr: "traitsOk t"
    and gl: "\<exists>n. nonLeafAt s gp = Some n \<and> level n = 2"
    and full: "\<forall>l. leafAt s lastPage = Some l \<longrightarrow> (\<forall>r \<in> set (ridArray l). occupied r)"
  shows "grown t s' \<and> metaAt s' = metaAt s"
proof -
  from splitLeaf_Some [OF sl] obtain pd dp median pd' dl dr where
    pd: "nonLeafAt s gp = Some pd" and dp: "leafAt s lastPage = Some dp"
    and si: "shiftInsert t pd (nat goff) median (length (pages s)) = Some pd'"
    and sn: "splitLeafNode t dp (length (pages s)) = Some (dl, dr)"
    and s': "s' = s\<lparr>pages := (pages s @ [BlankPage])[gp := NonLeafPage pd', lastPage := LeafPage dl,
                                                 length (pages s) := LeafPage dr],
              bufLog := bufLog s'\<rparr>"
    by blast
  let ?ps = "pages s"
  define ps' where "ps' = (pages s @ [BlankPage])[gp := NonLeafPage pd', lastPage := LeafPage dl,
                                      length (pages s) := LeafPage dr]"
  have st: "pages s' = ps'" "rootPageNum s' = rootPageNum s" "headerPageNum s' = headerPageNum s"
    using state_upd [OF s'] by (simp_all add: ps'_def)
  have inv: "\<forall>p < length ?ps. pageInv t ?ps p" and len4: "4 < length ?ps"
    and hd: "headerPageNum s = 1" and rm: "rootMax s"
    using g by (simp_all add: grown_def)
  from grown_meta [OF g] obtain mt where mt: "1 < length ?ps" "?ps ! 1 = MetaPage mt" by blast
  have gpl: "gp < length ?ps" "?ps ! gp = NonLeafPage pd" using pd by (simp_all add: nonLeafAt_Some)
  have lpl: "lastPage < length ?ps" "?ps ! lastPage = LeafPage dp" using dp by (simp_all add: leafAt_Some)
  have ne: "gp \<noteq> lastPage" using gpl lpl by auto
  have l2: "level pd = 2" using gl pd by simp
  have ni: "nodeInv t ?ps pd" using g pd by (rule grown_node)
  have li: "leafInv t lastPage dp" using g dp by (rule grown_leaf)
  have lsz: "length (keyArray dp) = LEAFSIZE t" "length (ridArray dp) = LEAFSIZE t"
    using li by (simp_all add: leafInv_def)
  have dlr: "dl = \<lparr>keyArray = take (LEAFSIZE t div 2) (keyArray dp)
                            @ replicate (LEAFSIZE t - LEAFSIZE t div 2) 0,
              ridArray = take (LEAFSIZE t div 2) (ridArray dp)
                            @ replicate (LEAFSIZE t - LEAFSIZE t div 2) noRid,
              rightSibPageNo = length ?ps\<rparr>"
    "dr = \<lparr>keyArray = drop (LEAFSIZE t div 2) (keyArray dp) @ replicate (LEAFSIZE t div 2) 0,
              ridArray = drop (LEAFSIZE t div 2) (ridArray dp) @ replicate (LEAFSIZE t div 2) noRid,
              rightSibPageNo = rightSibPageNo dp\<rparr>"
    using sn splitLeafNode_result [OF lsz] by simp_all
  have nsz: "length (pageNoArray pd) = NONLEAFSIZE t + 1" "length (nkeyArray pd) = NONLEAFSIZE t"
    using ni by (simp_all add: nodeInv_def)
  from shiftInsert_result [OF si nsz] obtain kk where
    pd': "pd' = pd\<lparr>nkeyArray := withSlot (nkeyArray pd) (nat goff) (kk - 1) median,
                    pageNoArray := withSlot (pageNoArray pd) (Suc (nat goff)) kk (length ?ps)\<rparr>"
    by blast
  have lp: "level pd' = level pd" by (simp add: pd')
  have len: "length ps' = length ?ps + 1" by (simp add: ps'_def)
  have nth: "\<And>p. p < length ?ps + 1 \<Longrightarrow> ps' ! p = (if p = length ?ps then LeafPage dr
           else if p = lastPage then LeafPage dl else if p = gp then NonLeafPage pd' else ?ps ! p)"
    using gpl lpl ne by (auto simp: ps'_def nth_list_update nth_append)
  have ext: "extends ?ps ps'"
  proof (rule extends_kind)
    show "\<forall>p<length ?ps. ps' ! p = ?ps ! p
           \<or> (\<exists>n n'. ?ps ! p = NonLeafPage n \<and> ps' ! p = NonLeafPage n' \<and> level n' = level n)
           \<or> (\<exists>l l'. ?ps ! p = LeafPage l \<and> ps' ! p = LeafPage l')"
      using gpl lpl lp by (simp add: nth)
  qed (simp add: len)
  have m: "1 \<le> LEAFSIZE t div 2" "LEAFSIZE t div 2 < LEAFSIZE t" "1 \<le> NONLEAFSIZE t"
    using tr by (auto simp: traitsOk_def)
  have nn: "nodeInv t ps' pd'"
    unfolding pd'
  proof (rule nodeInv_withSlot)
    show "\<forall>c\<in>set (pageNoArray pd). c \<noteq> 0 \<longrightarrow> c < length ps' \<and> childOk (level pd) (ps' ! c)"
      using ni ext by (auto simp: nodeInv_def extends_def)
    show "childOk (level pd) (ps' ! length ?ps)" using nth [of "length ?ps"] l2 by simp
    show "length ?ps \<noteq> 0" using len4 by auto
    show "length ?ps < length ps'" by (simp add: len)
  qed (use ni m in \<open>simp_all add: nodeInv_def\<close>)
  have ll: "leafInv t lastPage dl"
    using li m by (simp add: leafInv_def dlr nth_append)
  have "occupied (ridArray dp ! (LEAFSIZE t div 2))"
    using full dp m lsz by simp
  then have lr: "leafInv t (length ?ps) dr"
    using lsz m len4 by (simp add: leafInv_def dlr nth_append)
  have "\<forall>p < length ps'. pageInv t ps' p"
    using inv ext
  proof (rule pageInv_step)
    show "\<forall>p<length ps'. (p < length ?ps \<and> ps' ! p = ?ps ! p)
           \<or> (\<exists>n. ps' ! p = NonLeafPage n \<and> nodeInv t ps' n)
           \<or> (\<exists>l. ps' ! p = LeafPage l \<and> leafInv t p l)"
      using nn ll lr by (auto simp: len nth)
  qed
  moreover have na: "\<forall>p. map_option level (nonLeafAt s' p) = map_option level (nonLeafAt s p)"
    using gpl lpl lp by (auto simp: nonLeafAt_def st len nth)
  have "rootMax s'"
    by (rule rootMax_same [OF rm]) (simp_all add: st na)
  moreover have ma: "metaAt s' = metaAt s"
    using mt gpl lpl hd by (auto simp: metaAt_def st len nth)
  then have "metaAt s' \<noteq> None" using mt hd by (simp add: metaAt_def)
  ultimately show ?thesis
    using len4 hd ma by (simp add: grown_def st len)
qed

lemma leaf_full_occupied:
  assumes "leafSlot t l key insertMode 0 (LEAFSIZE t) = Some (LEAFSIZE t, a)"
    and sz: "length (ridArray l) = LEAFSIZE t" "length (keyArray l) = LEAFSIZE t"
  shows "\<forall>r \<in> set (ridArray l). occupied r"
proof (cases insertMode)
  case True
  with assms(1) leafSlot_insert_mode [OF sz, of 0 "LEAFSIZE t" key]
  have "length (takeWhile occupied (ridArray l)) = length (ridArray l)"
    using sz by simp
  then show ?thesis by (rule takeWhile_all)
next
  case False
  with assms(1) leafSlot_read_mode [OF sz, of 0 "LEAFSIZE t" key]
  have "length (takeWhile (below key) (zip (keyArray l) (ridArray l)))
          = length (zip (keyArray l) (ridArray l))"
    using sz by simp
  then have "\<forall>x \<in> set (zip (keyArray l) (ridArray l)). below key x" by (rule takeWhile_all)
  then have "\<forall>r \<in> snd ` set (zip (keyArray l) (ridArray l)). occupied r"
    by (auto simp: below_def)
  moreover have "snd ` set (zip (keyArray l) (ridArray l)) = set (ridArray l)"
    using sz by (metis map_snd_zip set_map)
  ultimately show ?thesis by simp
qed

lemma getPageNo_grown_cases:
  assumes run: "getPageNoAndOffsetOfKeyInsert t s key insertMode = Some (s', out)"
    and g: "grown t s"
  obtains rootData s1 lastPage path dataPage i insertAt where
      "nonLeafAt s (rootPageNum s) = Some rootData"
      "descend t key (level rootData) s 1 (rootPageNum s) [] = Some (s1, lastPage, path)"
      "leafAt s1 lastPage = Some dataPage" "pathOk t s1 lastPage 2 path" "grown t s1"
      "leafSlot t dataPage key insertMode 0 (LEAFSIZE t) = Some (i, insertAt)"
      "(i = LEAFSIZE t
         \<and> (\<exists>s2 G. splitParents t key s1 path False None = Some (s2, Some G)
               \<and> splitLeaf t key s2 lastPage insertAt G = Some (s', out)))
       \<or> (i \<noteq> LEAFSIZE t \<and> s' = unPinPage s1 lastPage
           \<and> out = (lastPage, int insertAt, i, lastPage))"
proof -
  from run obtain rootData s1 lastPage path dataPage i insertAt where
    rn: "nonLeafAt s (rootPageNum s) = Some rootData"
    and de: "descend t key (level rootData) s 1 (rootPageNum s) [] = Some (s1, lastPage, path)"
    and lf: "leafView t s1 lastPage = Some dataPage"
    and ls: "leafSlot t dataPage key insertMode 0 (LEAFSIZE t) = Some (i, insertAt)"
    and cs: "(i = LEAFSIZE t
         \<and> (\<exists>s2 G. splitParents t key s1 path False None = Some (s2, Some G)
               \<and> splitLeaf t key s2 lastPage insertAt G = Some (s', out)))
       \<or> (i \<noteq> LEAFSIZE t \<and> s' = unPinPage s1 lastPage
           \<and> out = (lastPage, int insertAt, i, lastPage))"
    by (rule getPageNo_cases)
  from descend_frame [OF de] obtain b where s1: "s1 = s\<lparr>bufLog := b\<rparr>" by blast
  have g1: "grown t s1" using g by (simp add: s1)
  have ri: "nodeInv t (pages s) rootData" using g rn by (rule grown_node)
  have "pathOk t s1 lastPage 2 path \<and> (\<exists>l. leafAt s1 lastPage = Some l)"
    using de g
  proof (rule descend_path)
    show "rootPageNum s < length (pages s)" using rn by (simp add: nonLeafAt_Some)
    show "childOk (level rootData + 2 - 1) (pages s ! rootPageNum s)"
      using rn by (simp add: nonLeafAt_Some)
    show "1 \<le> level rootData" using ri by (simp add: nodeInv_def)
    show "pathOk t s (rootPageNum s) (level rootData + 2 - 1) []" by simp
  qed
  then obtain l where po: "pathOk t s1 lastPage 2 path" and l: "leafAt s1 lastPage = Some l"
    by blast
  from leafView_leaf [OF l, of t] lf have "l = dataPage" by simp
  with l have "leafAt s1 lastPage = Some dataPage" by simp
  with rn de show thesis using po g1 ls cs by (rule that)
qed

lemma getPageNo_grown:
  assumes run: "getPageNoAndOffsetOfKeyInsert t s key insertMode = Some (s', out)"
    and g: "grown t s" and tr: "traitsOk t"
  shows "grown t s' \<and> metaAt s' = metaAt s"
proof -
  from run g obtain rootData s1 lastPage path dataPage i insertAt where
    rn: "nonLeafAt s (rootPageNum s) = Some rootData"
    and de: "descend t key (level rootData) s 1 (rootPageNum s) [] = Some (s1, lastPage, path)"
    and lf: "leafAt s1 lastPage = Some dataPage" and po: "pathOk t s1 lastPage 2 path"
    and g1: "grown t s1"
    and ls: "leafSlot t dataPage key insertMode 0 (LEAFSIZE t) = Some (i, insertAt)"
    and cs: "(i = LEAFSIZE t
         \<and> (\<exists>s2 G. splitParents t key s1 path False None = Some (s2, Some G)
               \<and> splitLeaf t key s2 lastPage insertAt G = Some (s', out)))
       \<or> (i \<noteq> LEAFSIZE t \<and> s' = unPinPage s1 lastPage
           \<and> out = (lastPage, int insertAt, i, lastPage))"
    by (rule getPageNo_grown_cases)
  from descend_frame [OF de] obtain b where s1: "s1 = s\<lparr>bufLog := b\<rparr>" by blast
  have m1: "metaAt s1 = metaAt s" by (simp add: s1)
  from cs show ?thesis
  proof (elim disjE conjE exE)
    assume "s' = unPinPage s1 lastPage"
    with g1 m1 show ?thesis by (simp add: unPinPage_def)
  next
    fix s2 G
    assume i: "i = LEAFSIZE t"
      and sp: "splitParents t key s1 path False None = Some (s2, Some G)"
      and sl: "splitLeaf t key s2 lastPage insertAt G = Some (s', out)"
    obtain gp goff where G: "G = (gp, goff)" by (cases G)
    have sg: "grown t s2 \<and> (\<forall>gp goff. Some G = Some (gp, goff)
                 \<longrightarrow> (\<exists>g. nonLeafAt s2 gp = Some g \<and> level g = 2))
              \<and> metaAt s2 = metaAt s1"
      using sp g1 tr po by (rule splitParents_grown) simp_all
    have li: "leafInv t lastPage dataPage" using g1 lf by (rule grown_leaf)
    have sz: "length (ridArray dataPage) = LEAFSIZE t" "length (keyArray dataPage) = LEAFSIZE t"
      using li by (simp_all add: leafInv_def)
    have oc: "\<forall>r \<in> set (ridArray dataPage). occupied r"
      using ls [unfolded i] sz by (rule leaf_full_occupied)
    have l2: "leafAt s2 lastPage = Some dataPage"
      using splitParents_leaf_frame [OF sp lf] by simp
    have "grown t s' \<and> metaAt s' = metaAt s2"
      using sl [unfolded G]
    proof (rule splitLeaf_grown)
      show "grown t s2" using sg by simp
      show "\<exists>n. nonLeafAt s2 gp = Some n \<and> level n = 2" using sg G by simp
      show "\<forall>l. leafAt s2 lastPage = Some l \<longrightarrow> (\<forall>r\<in>set (ridArray l). occupied r)"
        using l2 oc by simp
    qed (rule tr)
    with sg m1 show ?thesis by simp
  qed
qed

lemma shiftLeaf_keep:
  "shiftLeaf l j a = Some l' \<Longrightarrow>
   length (keyArray l') = length (keyArray l) \<and> length (ridArray l') = length (ridArray l)
   \<and> (ridArray l \<noteq> [] \<longrightarrow> ridArray l' ! 0 = ridArray l ! 0)"
proof (induction l j a rule: shiftLeaf.induct)
  case (1 dataPage j insertAt)
  show ?case
  proof (cases "j > insertAt")
    case False
    with "1.prems" show ?thesis by (subst (asm) shiftLeaf.simps) simp
  next
    case True
    from "1.prems" True obtain r ra k ka where
      a: "get (ridArray dataPage) (j - 1) = Some r" and b: "put (ridArray dataPage) j r = Some ra"
      and c: "get (keyArray dataPage) (j - 1) = Some k" and d: "put (keyArray dataPage) j k = Some ka"
      and e: "shiftLeaf (dataPage\<lparr>keyArray := ka, ridArray := ra\<rparr>) (j - 1) insertAt = Some l'"
      by (subst (asm) shiftLeaf.simps) (auto simp: bind_eq_Some_conv)
    from "1.IH" [OF True a b c d e] b d True show ?thesis
      by (auto simp: put_Some_iff)
  qed
qed

lemma insertInLeaf_grown:
  assumes run: "insertInLeaf t s key rid = Some s'"
    and g: "grown t s" and tr: "traitsOk t" and oc: "occupied rid"
  shows "grown t s' \<and> metaAt s' = metaAt s"
proof -
  from run obtain s1 dataPageNum insertAt endOfRecordsOffset dataPageNumPrev s2 tempPage dataPage
      shiftedPage ra ka where
    gp: "getPageNoAndOffsetOfKeyInsert t s key True
           = Some (s1, dataPageNum, insertAt, endOfRecordsOffset, dataPageNumPrev)"
    and rp: "readPage s1 dataPageNum = Some (s2, tempPage)"
    and lf: "leafAt s2 dataPageNum = Some dataPage"
    and sh: "shiftLeaf dataPage endOfRecordsOffset (nat insertAt) = Some shiftedPage"
    and ra: "put (ridArray shiftedPage) (nat insertAt) rid = Some ra"
    and ka: "put (keyArray shiftedPage) (nat insertAt) key = Some ka"
    and s': "s' = unPinPage (writePage s2 dataPageNum
                    (LeafPage (shiftedPage\<lparr>keyArray := ka, ridArray := ra\<rparr>))) dataPageNum"
    by (auto simp: insertInLeaf_def bind_eq_Some_conv split: if_splits)
  have g1: "grown t s1 \<and> metaAt s1 = metaAt s" using gp g tr by (rule getPageNo_grown)
  have s2: "s2 = s1\<lparr>bufLog := bufLog s1 @ [Pin dataPageNum]\<rparr>"
    using rp by (simp add: readPage_Some)
  have g2: "grown t s2" and m2: "metaAt s2 = metaAt s" using g1 by (simp_all add: s2)
  have li: "leafInv t dataPageNum dataPage" using g2 lf by (rule grown_leaf)
  from shiftLeaf_keep [OF sh] have
    k: "length (keyArray shiftedPage) = length (keyArray dataPage)"
       "length (ridArray shiftedPage) = length (ridArray dataPage)"
       "ridArray dataPage \<noteq> [] \<longrightarrow> ridArray shiftedPage ! 0 = ridArray dataPage ! 0"
    by simp_all
  have ne: "ridArray dataPage \<noteq> []" using li tr by (auto simp: leafInv_def traitsOk_def)
  have "leafInv t dataPageNum (shiftedPage\<lparr>keyArray := ka, ridArray := ra\<rparr>)"
    using li k ne ra ka oc
    by (cases "nat insertAt = 0") (auto simp: leafInv_def put_Some_iff)
  with g2 lf have "grown t s' \<and> metaAt s' = metaAt s2"
    by (rule leaf_write_grown) (simp add: s' unPinPage_def writePage_def)
  with m2 show ?thesis by simp
qed

section \<open>The first insert and the entry point\<close>

lemma fresh_bufLog [simp]: "fresh t (s\<lparr>bufLog := b\<rparr>) = fresh t s"
  by (simp add: fresh_def)

lemma bootstrap_grown:
  assumes run: "bootstrap t s ((zeroNonLeaf t)\<lparr>level := 1\<rparr>) key rid = Some s'"
    and f: "fresh t s" and tr: "traitsOk t" and oc: "occupied rid"
  shows "grown t s' \<and> metaAt s' = metaAt s \<and> rootPageNum s' = rootPageNum s"
proof -
  from f obtain a b c where abc: "pages s = [a, b, c]"
    by (auto simp: fresh_def length_Suc_conv numeral_3_eq_3)
  from f have h: "headerPageNum s = 1" and r: "rootPageNum s = 2" by (simp_all add: fresh_def)
  from f abc obtain m where "a = FileHeader" "b = MetaPage m"
    "c = NonLeafPage ((zeroNonLeaf t)\<lparr>level := 1\<rparr>)"
    by (auto simp: fresh_def metaAt_def split: Page.splits)
  with abc have m: "pages s = [FileHeader, MetaPage m, NonLeafPage ((zeroNonLeaf t)\<lparr>level := 1\<rparr>)]"
    by simp
  have n: "1 \<le> LEAFSIZE t" "1 \<le> NONLEAFSIZE t" using tr by (simp_all add: traitsOk_def)
  let ?root = "\<lparr>level = 2, nkeyArray = (replicate (NONLEAFSIZE t) 0)[0 := key],
                pageNoArray = (replicate (NONLEAFSIZE t + 1) 0)[0 := 3, 1 := 4]\<rparr>"
  let ?A = "(zeroLeaf t)\<lparr>rightSibPageNo := 4\<rparr>"
  let ?B = "(zeroLeaf t)\<lparr>keyArray := (keyArray (zeroLeaf t))[0 := key],
                          ridArray := (ridArray (zeroLeaf t))[0 := rid]\<rparr>"
  have ps: "pages s' = [FileHeader, MetaPage m, NonLeafPage ?root, LeafPage ?A, LeafPage ?B]"
    and rs: "rootPageNum s' = 2" "headerPageNum s' = 1"
    using run n
    by (auto simp: bootstrap_def allocPage_def Let_def put_def writePage_def unPinPage_def
        zeroNonLeaf_def zeroLeaf_def m r h bind_eq_Some_conv eval_nat_numeral split: if_splits)
  have ma: "metaAt s' = metaAt s" by (simp add: metaAt_def ps rs m h)
  have "set ((replicate (NONLEAFSIZE t + 1) (0::nat))[0 := 3, 1 := 4]) \<subseteq> {0, 3, 4}"
    by (rule order_trans [OF set_update_subset_insert])
       (use set_update_subset_insert [of "replicate (NONLEAFSIZE t + 1) (0::nat)" 0 3] in auto)
  then have nr: "nodeInv t (pages s') ?root"
    using n by (auto simp: nodeInv_def ps nth_list_update)
  have la: "leafInv t 3 ?A" by (simp add: leafInv_def zeroLeaf_def)
  have lb: "leafInv t 4 ?B" using n oc by (simp add: leafInv_def zeroLeaf_def)
  have pi: "\<forall>p < length (pages s'). pageInv t (pages s') p"
  proof (intro allI impI)
    fix p assume "p < length (pages s')"
    then consider "p = 0" | "p = 1" | "p = 2" | "p = 3" | "p = 4"
      by (auto simp: ps less_Suc_eq numeral_eq_Suc)
    then show "pageInv t (pages s') p"
      using nr la lb by cases (simp_all add: pageInv_def, simp_all add: ps)
  qed
  have rm: "rootMax s'"
    unfolding rootMax_def
  proof (intro exI conjI allI impI)
    show "nonLeafAt s' (rootPageNum s') = Some ?root" by (simp add: nonLeafAt_def ps rs)
    fix p n assume "nonLeafAt s' p = Some n \<and> p \<noteq> rootPageNum s'"
    then show "level n < level ?root"
      by (auto simp: nonLeafAt_def ps rs less_Suc_eq numeral_eq_Suc nth_Cons' split: if_splits)
  qed
  have "metaAt s' \<noteq> None" by (simp add: metaAt_def ps rs)
  with pi rm ma show ?thesis by (simp add: grown_def rs r) (simp add: ps)
qed

lemma insertKeyTemplate_inv:
  assumes run: "insertKeyTemplate t s key rid = Some s'"
    and i: "fresh t s \<or> grown t s" and tr: "traitsOk t" and oc: "occupied rid"
  shows "grown t s' \<and> metaAt s' = metaAt s \<and> headerPageNum s' = 1"
proof -
  from run obtain s1 rootPage rootData p0 where
    rp: "readPage s (rootPageNum s) = Some (s1, rootPage)"
    and rn: "nonLeafAt s1 (rootPageNum s1) = Some rootData"
    and p0: "get (pageNoArray rootData) 0 = Some p0"
    and br: "(if p0 = 0 then bootstrap t s1 rootData key rid else insertInLeaf t s1 key rid) = Some s'"
    by (auto simp: insertKeyTemplate_def bind_eq_Some_conv)
  have s1: "s1 = s\<lparr>bufLog := bufLog s @ [Pin (rootPageNum s)]\<rparr>"
    using rp by (simp add: readPage_Some)
  from i show ?thesis
  proof
    assume f: "fresh t s"
    then have f1: "fresh t s1" by (simp add: s1)
    have rd: "rootData = (zeroNonLeaf t)\<lparr>level := 1\<rparr>"
      using f rn by (simp add: fresh_def s1 nonLeafAt_Some)
    then have "p0 = 0" using p0 by (simp add: get_Some_iff zeroNonLeaf_def)
    with br rd have "bootstrap t s1 ((zeroNonLeaf t)\<lparr>level := 1\<rparr>) key rid = Some s'" by simp
    from bootstrap_grown [OF this f1 tr oc] have a: "grown t s'" and b: "metaAt s' = metaAt s"
      by (simp_all add: s1)
    from a have "headerPageNum s' = 1" by (simp add: grown_def)
    with a b show ?thesis by simp
  next
    assume g: "grown t s"
    then have g1: "grown t s1" by (simp add: s1)
    have "nodeInv t (pages s1) rootData" using g1 rn by (rule grown_node)
    then have "p0 \<noteq> 0" using p0 by (simp add: get_Some_iff nodeInv_def)
    with br have "insertInLeaf t s1 key rid = Some s'" by simp
    from insertInLeaf_grown [OF this g1 tr oc] have a: "grown t s'" and b: "metaAt s' = metaAt s"
      by (simp_all add: s1)
    from a have "headerPageNum s' = 1" by (simp add: grown_def)
    with a b show ?thesis by simp
  qed
qed

lemma setMetaRoot_inv:
  assumes run: "setMetaRoot s = Some s'" and g: "grown t s"
  shows "grown t s' \<and> metaOk s'"
proof -
  have inv: "\<forall>p < length (pages s). pageInv t (pages s) p" and len4: "4 < length (pages s)"
    and hd: "headerPageNum s = 1" and rm: "rootMax s"
    using g by (simp_all add: grown_def)
  from grown_meta [OF g] obtain m where m: "1 < length (pages s)" "pages s ! 1 = MetaPage m"
    by blast
  define ps' where "ps' = (pages s)[1 := MetaPage (m\<lparr>rootPageNo := rootPageNum s\<rparr>)]"
  have s': "s' = s\<lparr>pages := ps'\<rparr>"
    using run m hd by (simp add: setMetaRoot_def writePage_def ps'_def)
  have len: "length ps' = length (pages s)" by (simp add: ps'_def)
  have nth: "\<And>q. q < length (pages s) \<Longrightarrow>
               ps' ! q = (if q = 1 then MetaPage (m\<lparr>rootPageNo := rootPageNum s\<rparr>) else pages s ! q)"
    by (simp add: ps'_def nth_list_update)
  have ext: "extends (pages s) ps'"
    unfolding ps'_def by (rule extends_update) (use m in auto)
  have pi: "\<forall>q < length ps'. pageInv t ps' q"
  proof (intro allI impI)
    fix q assume q: "q < length ps'"
    show "pageInv t ps' q"
    proof (cases "q = 1")
      case True
      with m show ?thesis by (simp add: pageInv_def nth)
    next
      case False
      with q have e: "ps' ! q = pages s ! q" by (simp add: len nth)
      from inv q have pq: "pageInv t (pages s) q" by (simp add: len)
      show ?thesis
      proof (cases "pages s ! q")
        case (NonLeafPage n)
        with pq have "nodeInv t (pages s) n" by (simp add: pageInv_def)
        then have "nodeInv t ps' n" using ext by (rule nodeInv_extends)
        with NonLeafPage e show ?thesis by (simp add: pageInv_def)
      qed (use pq e in \<open>simp_all add: pageInv_def\<close>)
    qed
  qed
  have na: "\<forall>q. nonLeafAt s' q = nonLeafAt s q"
    using m by (auto simp: nonLeafAt_def s' len nth)
  have rm': "rootMax s'"
    by (rule rootMax_same [OF rm]) (simp add: s', simp add: na)
  have ma: "metaAt s' = Some (m\<lparr>rootPageNo := rootPageNum s\<rparr>)"
    using m hd by (simp add: metaAt_def s' len nth)
  show ?thesis
    using pi rm' ma len4 hd by (simp add: grown_def metaOk_def s' len)
qed

lemma insertEntry_inv:
  assumes run: "insertEntry t s key rid = Some s'"
    and i: "indexInv t s" and tr: "traitsOk t" and oc: "occupied rid"
  shows "grown t s' \<and> metaOk s'"
proof -
  from run obtain s1 where ik: "insertKeyTemplate t s key rid = Some s1"
    and fin: "(if rootPageNum s1 \<noteq> rootPageNum s then setMetaRoot s1 else Some s1) = Some s'"
    by (auto simp: insertEntry_def bind_eq_Some_conv)
  from i have fg: "fresh t s \<or> grown t s" and mo: "metaOk s" by (simp_all add: indexInv_def)
  from insertKeyTemplate_inv [OF ik fg tr oc] have
    g1: "grown t s1" and m1: "metaAt s1 = metaAt s" by simp_all
  show ?thesis
  proof (cases "rootPageNum s1 = rootPageNum s")
    case True
    with fin have "s' = s1" by simp
    with g1 m1 mo True show ?thesis by (simp add: metaOk_def)
  next
    case False
    with fin have "setMetaRoot s1 = Some s'" by simp
    then show ?thesis using g1 by (rule setMetaRoot_inv)
  qed
qed

lemma newIndex_inv: "indexInv t (newIndex t relName offset)"
  by (simp add: indexInv_def fresh_def metaOk_def metaAt_def newIndex_def createRoot_def
      writePage_def unPinPage_def)

lemma reachable_inv: "reachable t s \<Longrightarrow> traitsOk t \<Longrightarrow> indexInv t s"
proof (induction rule: reachable.induct)
  case (init relName offset)
  show ?case by (rule newIndex_inv)
next
  case (step s rid key s')
  from insertEntry_inv [OF step.hyps(3) step.IH [OF step.prems] step.prems step.hyps(2)]
  show ?case by (simp add: indexInv_def)
qed

lemma reachable_grown:
  "reachable t s \<Longrightarrow> traitsOk t \<Longrightarrow> rootNode s = Some r \<Longrightarrow> pageNoArray r ! 0 \<noteq> 0 \<Longrightarrow> grown t s"
proof -
  assume "reachable t s" "traitsOk t" and r: "rootNode s = Some r" "pageNoArray r ! 0 \<noteq> 0"
  then have "indexInv t s" by (simp add: reachable_inv)
  moreover have "\<not> fresh t s"
    using r by (auto simp: fresh_def rootNode_def nonLeafAt_Some zeroNonLeaf_def)
  ultimately show ?thesis by (simp add: indexInv_def)
qed

section \<open>Root, levels and occupancy of the reachable indexes\<close>

lemma reachable_insertAll:
  "reachable t s \<Longrightarrow> insertAll t s es = Some s' \<Longrightarrow> \<forall>e \<in> set es. occupied (snd e) \<Longrightarrow>
   reachable t s'"
proof (induction es arbitrary: s)
  case Nil
  then show ?case by simp
next
  case (Cons e es)
  obtain k r where e: "e = (k, r)" by (cases e)
  from Cons.prems(2) obtain s1 where
    a: "insertEntry t s k r = Some s1" and b: "insertAll t s1 es = Some s'"
    by (auto simp: e bind_eq_Some_conv)
  have "reachable t s1"
    using Cons.prems(1) _ a by (rule reachable.step) (use Cons.prems(3) e in simp)
  then show ?case using b Cons.prems(3) by (intro Cons.IH) simp_all
qed

lemma fresh_rootMax: "fresh t s \<Longrightarrow> rootMax s"
proof -
  assume f: "fresh t s"
  then obtain a b c where abc: "pages s = [a, b, c]"
    by (auto simp: fresh_def length_Suc_conv numeral_3_eq_3)
  from f abc have "a = FileHeader" "\<exists>m. b = MetaPage m"
    "c = NonLeafPage ((zeroNonLeaf t)\<lparr>level := 1\<rparr>)" "rootPageNum s = 2"
    by (auto simp: fresh_def metaAt_def split: Page.splits)
  with abc show ?thesis
    by (auto simp: rootMax_def nonLeafAt_def less_Suc_eq numeral_eq_Suc nth_Cons' split: if_splits)
qed

lemma traits33_ok: "traitsOk traits33"
  by (simp add: traitsOk_def traits33_def)

lemma indexWith6_reachable: "reachable traits33 indexWith6"
proof -
  have "insertAll traits33 (newIndex traits33 ''relA'' 0) (entriesOf [10, 20, 30, 40, 50, 60])
          = Some indexWith6"
    unfolding indexWith6_def indexAfter_def by code_simp
  with reachable.init [of traits33 "''relA''" 0] show ?thesis
    by (rule reachable_insertAll) (simp add: entriesOf_def ridOf_def occupied_def)
qed

lemma indexWith6_root:
  "rootPageNum indexWith6 = 7"
  "rootNode indexWith6 = Some \<lparr>level = 3, nkeyArray = [20, 0, 0], pageNoArray = [2, 8, 0, 0]\<rparr>"
  "metaAt indexWith6 = Some \<lparr>relationName = ''relA'', attrByteOffset = 0, attrType = INTEGER,
                              rootPageNo = 7\<rparr>"
  by code_simp+

text \<open>
  C3: in every state that inserts reach from a new index, the root page number of the
  meta page is the cached root page number, and the page it names is a non-leaf node whose
  level is greater than that of every other non-leaf node of the file. So an insert that
  splits the root leaves both the cached number and the meta page at the new root.
\<close>

theorem C3_root:
  assumes "reachable t s" "traitsOk t"
  shows "map_option rootPageNo (metaAt s) = Some (rootPageNum s)
       \<and> (\<exists>r. nonLeafAt s (rootPageNum s) = Some r
            \<and> (\<forall>p n. nonLeafAt s p = Some n \<and> p \<noteq> rootPageNum s \<longrightarrow> level n < level r))"
proof -
  from assms have i: "indexInv t s" by (rule reachable_inv)
  then have "rootMax s" by (auto simp: indexInv_def grown_def intro: fresh_rootMax)
  with i show ?thesis by (simp add: indexInv_def metaOk_def rootMax_def)
qed

theorem C3_root_witness:
  "rootPageNum indexWith6 = 7
   \<and> map_option rootPageNo (metaAt indexWith6) = Some 7
   \<and> (\<exists>r. nonLeafAt indexWith6 7 = Some r
        \<and> (\<forall>p n. nonLeafAt indexWith6 p = Some n \<and> p \<noteq> 7 \<longrightarrow> level n < level r))"
  using C3_root [OF indexWith6_reachable traits33_ok] indexWith6_root(1) by simp

text \<open>
  C4, as stated, fails: after the insert of key 7 the root has level 2 and its children,
  the two leaves of the bootstrap, are leaves.
\<close>

theorem C4_level_counterexample: "\<not> claimedLevelRule indexWith7"
  by code_simp

lemma walk_rank:
  "grown t s \<Longrightarrow> p < length (pages s) \<Longrightarrow> childOk lv (pages s ! p) \<Longrightarrow> walk s p cs = Some q \<Longrightarrow>
   q < length (pages s) \<and> childOk (lv - length cs) (pages s ! q) \<and> length cs + 2 \<le> lv"
proof (induction cs arbitrary: p lv)
  case Nil
  show ?case
  proof (cases "pages s ! p")
    case (NonLeafPage n)
    with Nil have "nodeInv t (pages s) n" by (auto intro: grown_node simp: nonLeafAt_Some)
    with NonLeafPage Nil show ?thesis by (simp add: nodeInv_def)
  qed (use Nil in simp_all)
next
  case (Cons c cs)
  from Cons.prems(4) obtain n q0 where
    n: "nonLeafAt s p = Some n" and q0: "get (pageNoArray n) c = Some q0" "q0 \<noteq> 0"
    and w: "walk s q0 cs = Some q"
    by (auto split: option.splits if_splits)
  have ni: "nodeInv t (pages s) n" using Cons.prems(1) n by (rule grown_node)
  have lv: "lv = level n + 1" using n Cons.prems(3) by (simp add: nonLeafAt_Some)
  have "q0 \<in> set (pageNoArray n)" using q0(1) by (auto simp: get_Some_iff)
  with ni q0(2) have c: "q0 < length (pages s)" "childOk (level n) (pages s ! q0)"
    by (simp_all add: nodeInv_def)
  from Cons.IH [OF Cons.prems(1) c w] lv show ?case by simp
qed

text \<open>
  C4 (amended): in every reachable index with data, the level of a non-leaf node counts
  the leaves as level 1. A non-leaf node has level 2 exactly when its children are leaves,
  and otherwise its children are non-leaf nodes of the next lower level; so along every
  path of child pointers from the root the level decreases by exactly 1, it is 2 at the
  parent of a leaf, and every leaf is reached after \<open>level root - 1\<close> steps.
\<close>

theorem C4_levels:
  assumes "reachable t s" "traitsOk t" "rootNode s = Some r" "pageNoArray r ! 0 \<noteq> 0"
  shows "(\<forall>p n c. nonLeafAt s p = Some n \<and> c \<in> set (pageNoArray n) \<and> c \<noteq> 0 \<longrightarrow>
            (level n = 2 \<longleftrightarrow> leafAt s c \<noteq> None)
          \<and> (level n \<noteq> 2 \<longrightarrow> (\<exists>m. nonLeafAt s c = Some m \<and> level m + 1 = level n)))
       \<and> (\<forall>cs q. walk s (rootPageNum s) cs = Some q \<longrightarrow>
            (\<exists>l. leafAt s q = Some l \<and> length cs + 1 = level r)
          \<or> (\<exists>n. nonLeafAt s q = Some n \<and> level n + length cs = level r \<and> 2 \<le> level n))"
proof -
  have g: "grown t s" using assms by (rule reachable_grown)
  have a: "(level n = 2 \<longleftrightarrow> leafAt s c \<noteq> None)
          \<and> (level n \<noteq> 2 \<longrightarrow> (\<exists>m. nonLeafAt s c = Some m \<and> level m + 1 = level n))"
    if "nonLeafAt s p = Some n \<and> c \<in> set (pageNoArray n) \<and> c \<noteq> 0" for p n c
  proof -
    have "nodeInv t (pages s) n" using g that by (auto intro: grown_node)
    with that have c: "c < length (pages s)" "childOk (level n) (pages s ! c)"
      by (simp_all add: nodeInv_def)
    show ?thesis
    proof (cases "pages s ! c")
      case (NonLeafPage m)
      with c g have "nodeInv t (pages s) m" by (auto intro: grown_node simp: nonLeafAt_Some)
      with NonLeafPage c show ?thesis by (simp add: leafAt_def nonLeafAt_def nodeInv_def)
    qed (use c in \<open>simp_all add: leafAt_def\<close>)
  qed
  have b: "(\<exists>l. leafAt s q = Some l \<and> length cs + 1 = level r)
          \<or> (\<exists>n. nonLeafAt s q = Some n \<and> level n + length cs = level r \<and> 2 \<le> level n)"
    if w: "walk s (rootPageNum s) cs = Some q" for cs q
  proof -
    have r: "rootPageNum s < length (pages s)" "pages s ! rootPageNum s = NonLeafPage r"
      using assms(3) by (simp_all add: rootNode_def nonLeafAt_Some)
    then have "childOk (level r + 1) (pages s ! rootPageNum s)" by simp
    from walk_rank [OF g r(1) this w] have
      q: "q < length (pages s)" "childOk (level r + 1 - length cs) (pages s ! q)"
         "length cs + 2 \<le> level r + 1"
      by simp_all
    show ?thesis
    proof (cases "pages s ! q")
      case (NonLeafPage n)
      with q g have "nodeInv t (pages s) n" by (auto intro: grown_node simp: nonLeafAt_Some)
      with NonLeafPage q show ?thesis by (auto simp: nonLeafAt_Some nodeInv_def)
    next
      case (LeafPage l)
      with q show ?thesis by (auto simp: leafAt_Some)
    qed (use q in simp_all)
  qed
  from a b show ?thesis by blast
qed

lemma indexWith6_facts:
  "pageNoArray \<lparr>level = 3, nkeyArray = [20, 0, 0], pageNoArray = [2, 8, 0, 0::nat]\<rparr> ! 0 \<noteq> 0"
  "walk indexWith6 (rootPageNum indexWith6) [1, 1] = Some 6"
  "walk indexWith6 (rootPageNum indexWith6) [0] = Some 2"
  by code_simp+

theorem C4_levels_witness:
  "(\<exists>l. leafAt indexWith6 6 = Some l \<and> length [1, 1 :: nat] + 1 = (3::nat))
   \<or> (\<exists>n. nonLeafAt indexWith6 6 = Some n \<and> level n + length [1, 1 :: nat] = 3 \<and> 2 \<le> level n)"
  using C4_levels [OF indexWith6_reachable traits33_ok indexWith6_root(2) indexWith6_facts(1)]
    indexWith6_facts(2)
  by (metis NonLeafNode.select_convs(1))

text \<open>
  C5, as stated, fails: after the insert of key 7 the left leaf of the bootstrap, which is
  not the root, holds no entry.
\<close>

theorem C5_occupancy_counterexample: "\<not> claimedOccupancy indexWith7"
  by code_simp

text \<open>
  C5 (amended): for fan-outs \<open>L \<ge> 2\<close> and \<open>N \<ge> 3\<close>, in every reachable index with data the
  root and every other non-leaf node hold at least one key, and every leaf holds at least
  one entry, except that the left leaf of the bootstrap (page 3) may be empty.
\<close>

theorem C5_occupancy:
  assumes "reachable t s" "traitsOk t" "rootNode s = Some r" "pageNoArray r ! 0 \<noteq> 0"
  shows "(\<forall>p n. nonLeafAt s p = Some n \<longrightarrow> nodeKeys n \<noteq> [])
       \<and> (\<forall>p l. leafAt s p = Some l \<and> p \<noteq> 3 \<longrightarrow> leafEntries l \<noteq> [])"
proof (intro conjI allI impI)
  have g: "grown t s" using assms by (rule reachable_grown)
  have tr: "1 \<le> LEAFSIZE t" "1 \<le> NONLEAFSIZE t" using assms(2) by (simp_all add: traitsOk_def)
  {
    fix p n assume "nonLeafAt s p = Some n"
    with g have ni: "nodeInv t (pages s) n" by (rule grown_node)
    then obtain a b rest where ab: "pageNoArray n = a # b # rest" "a \<noteq> 0" "b \<noteq> 0"
      using tr by (cases "pageNoArray n"; cases "tl (pageNoArray n)") (auto simp: nodeInv_def)
    then have "2 \<le> childCount n" by (simp add: childCount_def)
    moreover have "nkeyArray n \<noteq> []" using ni tr by (auto simp: nodeInv_def)
    ultimately show "nodeKeys n \<noteq> []" by (auto simp: nodeKeys_def)
  }
  fix p l assume a: "leafAt s p = Some l \<and> p \<noteq> 3"
  with g have li: "leafInv t p l" by (auto intro: grown_leaf)
  with a tr obtain k ks rd rs where "keyArray l = k # ks" "ridArray l = rd # rs" "occupied rd"
    by (cases "keyArray l"; cases "ridArray l") (auto simp: leafInv_def)
  then show "leafEntries l \<noteq> []" by (simp add: leafEntries_def occupied_def)
qed

lemma C5_witness_facts:
  "nonLeafAt indexWith6 8 \<noteq> None"
  "leafAt indexWith6 9 \<noteq> None"
  by code_simp+

theorem C5_occupancy_witness:
  "(\<exists>n. nonLeafAt indexWith6 8 = Some n \<and> nodeKeys n \<noteq> [])
   \<and> (\<exists>l. leafAt indexWith6 9 = Some l \<and> leafEntries l \<noteq> [])"
proof -
  note c = C5_occupancy [OF indexWith6_reachable traits33_ok indexWith6_root(2) indexWith6_facts(1)]
  from C5_witness_facts obtain n l where
    nl: "nonLeafAt indexWith6 8 = Some n" "leafAt indexWith6 9 = Some l"
    by blast
  have "(9::nat) \<noteq> 3" by simp
  with c nl have "nodeKeys n \<noteq> []" "leafEntries l \<noteq> []" by blast+
  with nl show ?thesis by simp
qed

section \<open>The positioning inside the leaf\<close>







section \<open>The calls of a split to the buffer manager\<close>

lemma splitParent_log:
  assumes "splitParent t k s offset pid pd path dn G = Some (s', G')"
  shows "\<exists>s1 nrd0 pp ppo median nrd pL.
      nodeAbove t s pid pd path = Some (s1, nrd0, pp, ppo)
    \<and> get (nkeyArray pd) (NONLEAFSIZE t div 2) = Some median
    \<and> shiftInsert t nrd0 ppo median (length (pages s1)) = Some nrd
    \<and> get (pageNoArray nrd) ppo = Some pL
    \<and> bufLog s' = bufLog s1 @ [Pin (length (pages s1)), Unpin pp]
         @ (if k \<ge> median
            then Unpin pL # (if 4 \<le> level nrd then [Unpin (length (pages s1))] else [])
            else Unpin (length (pages s1)) # (if 4 \<le> level nrd then [Unpin pL] else []))"
  using assms
  unfolding splitParent_def Let_def allocPage_def
  by (clarsimp simp: bind_eq_Some_conv split del: if_split)
     (auto simp: writePage_def unPinPage_def split: if_splits)

lemma splitLeaf_log:
  assumes "splitLeaf t k s lastPage insertAt (gp, goff) = Some (s', out)"
  shows "bufLog s' = bufLog s @ [Pin (length (pages s)), Unpin lastPage, Unpin gp,
                                 Unpin (length (pages s))]"
  using assms
  unfolding splitLeaf_def Let_def allocPage_def
  by (clarsimp simp: bind_eq_Some_conv split del: if_split)
     (auto simp: writePage_def unPinPage_def split: if_splits)

lemma splitParent_detail:
  assumes sp: "splitParent t k s offset pid pd rest dn G = Some (s', G')"
    and g: "grown t s" and tr: "traitsOk t"
    and pd: "nonLeafAt s pid = Some pd" and pz: "pid \<noteq> 0"
    and path: "pathOk t s pid (level pd + 1) rest"
  shows "\<exists>pl pr pp gpp.
      splitNonLeaf t pd = Some (pl, pr)
    \<and> length (pages s) \<le> gpp \<and> gpp < length (pages s') \<and> pp \<noteq> gpp \<and> pp \<noteq> pid
    \<and> nonLeafAt s' pid = Some pl \<and> nonLeafAt s' gpp = Some pr
    \<and> (\<not> dn \<longrightarrow> G' = (if k \<ge> nkeyArray pd ! (NONLEAFSIZE t div 2)
                        then Some (gpp, int offset - int (NONLEAFSIZE t div 2) - 1)
                        else Some (pid, int offset)))
    \<and> bufLog s' = bufLog s @ [Pin pp, Pin gpp, Unpin pp]
         @ (if k \<ge> nkeyArray pd ! (NONLEAFSIZE t div 2)
            then Unpin pid # (if 3 \<le> level pd then [Unpin gpp] else [])
            else Unpin gpp # (if 3 \<le> level pd then [Unpin pid] else []))"
proof -
  from splitParent_Some [OF sp] obtain s1 nrd0 pp ppo median nrd pl pr where
    na: "nodeAbove t s pid pd rest = Some (s1, nrd0, pp, ppo)"
    and med: "get (nkeyArray pd) (NONLEAFSIZE t div 2) = Some median"
    and si: "shiftInsert t nrd0 ppo median (length (pages s1)) = Some nrd"
    and sn: "splitNonLeaf t pd = Some (pl, pr)"
    and s': "s' = s1\<lparr>pages := (pages s1 @ [BlankPage])[pid := NonLeafPage pl, pp := NonLeafPage nrd,
                                                   length (pages s1) := NonLeafPage pr],
               bufLog := bufLog s'\<rparr>"
    and G': "G' = (if dn = False
            then (if k \<ge> median
                  then Some (length (pages s1), int offset - int (NONLEAFSIZE t div 2) - 1)
                  else Some (pid, int offset))
            else G)"
    by blast
  from splitParent_log [OF sp] na med si obtain pL where
    pL: "get (pageNoArray nrd) ppo = Some pL"
    and lg: "bufLog s' = bufLog s1 @ [Pin (length (pages s1)), Unpin pp]
         @ (if k \<ge> median
            then Unpin pL # (if 4 \<le> level nrd then [Unpin (length (pages s1))] else [])
            else Unpin (length (pages s1)) # (if 4 \<le> level nrd then [Unpin pL] else []))"
    by auto
  have mk: "median = nkeyArray pd ! (NONLEAFSIZE t div 2)" using med by (simp add: get_Some_iff)
  have pidl: "pid < length (pages s)" "pages s ! pid = NonLeafPage pd"
    using pd by (simp_all add: nonLeafAt_Some)
  have lvn: "level nrd = level nrd0" using shiftInsert_slots(5) [OF si] .
  have facts: "length (pages s) \<le> length (pages s1) \<and> pp < length (pages s1) \<and> pp \<noteq> pid
             \<and> bufLog s1 = bufLog s @ [Pin pp] \<and> level nrd0 = level pd + 1
             \<and> length (pageNoArray nrd0) = NONLEAFSIZE t + 1
             \<and> length (nkeyArray nrd0) = NONLEAFSIZE t
             \<and> ppo < length (pageNoArray nrd0) \<and> pageNoArray nrd0 ! ppo = pid"
  proof (cases rest)
    case Nil
    from nodeAbove_Nil [OF na [unfolded Nil]] pidl show ?thesis by auto
  next
    case (Cons a rest')
    obtain i q where a: "a = (i, q)" by (cases a)
    from nodeAbove_Cons [OF na [unfolded Cons a]] have
      s1: "s1 = s\<lparr>bufLog := bufLog s @ [Pin q]\<rparr>"
      and pp: "pp = q" "ppo = i" and q: "nonLeafAt s q = Some nrd0"
      by simp_all
    from path Cons a q have
      pq: "level nrd0 = level pd + 1" "i \<le> NONLEAFSIZE t" "pageNoArray nrd0 ! i = pid"
      by auto
    have qi: "nodeInv t (pages s) nrd0" using g q by (rule grown_node)
    have "q \<noteq> pid" using q pd pq(1) by auto
    with q pq qi show ?thesis by (auto simp: s1 pp nonLeafAt_Some nodeInv_def)
  qed
  from shiftInsert_result [OF si] facts obtain kk where
    nrd: "nrd = nrd0\<lparr>nkeyArray := withSlot (nkeyArray nrd0) ppo (kk - 1) median,
                    pageNoArray := withSlot (pageNoArray nrd0) (Suc ppo) kk (length (pages s1))\<rparr>"
    by blast
  have "pL = pid" using pL facts by (simp add: get_Some_iff nrd withSlot_nth)
  moreover have "4 \<le> level nrd \<longleftrightarrow> 3 \<le> level pd" using lvn facts by auto
  ultimately have lg': "bufLog s' = bufLog s @ [Pin pp, Pin (length (pages s1)), Unpin pp]
         @ (if k \<ge> nkeyArray pd ! (NONLEAFSIZE t div 2)
            then Unpin pid # (if 3 \<le> level pd then [Unpin (length (pages s1))] else [])
            else Unpin (length (pages s1)) # (if 3 \<le> level pd then [Unpin pid] else []))"
    using lg facts mk by simp
  have ps: "pages s' = (pages s1 @ [BlankPage])[pid := NonLeafPage pl, pp := NonLeafPage nrd,
                                                   length (pages s1) := NonLeafPage pr]"
    using state_upd [OF s'] by simp
  have a: "nonLeafAt s' pid = Some pl"
    using facts pidl by (simp add: nonLeafAt_Some ps nth_list_update nth_append)
  have b: "nonLeafAt s' (length (pages s1)) = Some pr"
    by (simp add: nonLeafAt_Some ps)
  have c: "length (pages s1) < length (pages s')" by (simp add: ps)
  show ?thesis
    apply (rule exI [of _ pl], rule exI [of _ pr], rule exI [of _ pp],
           rule exI [of _ "length (pages s1)"])
    using sn facts a b c lg' G' mk by auto
qed

lemma splitParents_Cons_log:
  "splitParents t k s ((offset, pid) # path) dn G = Some (s', G') \<Longrightarrow>
   firstInvalid t (pageNoArray pd) offset = Some kk \<Longrightarrow> nonLeafAt s pid = Some pd \<Longrightarrow>
   kk \<noteq> NONLEAFSIZE t + 1 \<Longrightarrow>
   \<exists>gp goff. (if dn then G else Some (pid, int offset)) = Some (gp, goff)
     \<and> bufLog s' = bufLog s @ Pin pid # (if gp \<noteq> pid then [Unpin pid] else [])"
proof -
  assume a: "splitParents t k s ((offset, pid) # path) dn G = Some (s', G')"
    "firstInvalid t (pageNoArray pd) offset = Some kk" "nonLeafAt s pid = Some pd"
    "kk \<noteq> NONLEAFSIZE t + 1"
  then have "\<exists>gp goff. (if dn then G else Some (pid, int offset)) = Some (gp, goff)
     \<and> s' = (if gp \<noteq> pid then unPinPage (s\<lparr>bufLog := bufLog s @ [Pin pid]\<rparr>) pid
              else s\<lparr>bufLog := bufLog s @ [Pin pid]\<rparr>)"
    by (auto simp: readPage_Some bind_eq_Some_conv Let_def split: if_splits)
  then show ?thesis by (auto simp: unPinPage_def)
qed

lemma pins_split:
  "gpp \<noteq> pp \<Longrightarrow> gpp \<noteq> pid \<Longrightarrow> pp \<noteq> pid \<Longrightarrow>
   pinsAfter P (Pin pid # [Pin pp, Pin gpp, Unpin pp]
                 @ (if c then Unpin pid # (if d then [Unpin gpp] else [])
                    else Unpin gpp # (if d then [Unpin pid] else [])))
     = (if d then P else (if c then gpp else pid) # P)"
  by auto

lemma splitParents_detail:
  "splitParents t k s path dn G = Some (s', G') \<Longrightarrow> grown t s \<Longrightarrow> traitsOk t \<Longrightarrow>
   pathOk t s child lv path \<Longrightarrow>
   (dn \<longrightarrow> (\<exists>gp goff g. G = Some (gp, goff) \<and> nonLeafAt s gp = Some g \<and> level g = 2 \<and> 2 < lv)) \<Longrightarrow>
   (\<not> dn \<longrightarrow> G = None \<and> lv = 2) \<Longrightarrow>
   (\<forall>p n. nonLeafAt s p = Some n \<and> level n < lv \<longrightarrow> nonLeafAt s' p = Some n)
   \<and> (dn \<longrightarrow> G' = G) \<and> length (pages s) \<le> length (pages s')
   \<and> (\<exists>evs. bufLog s' = bufLog s @ evs
         \<and> (\<forall>P. pinsAfter P evs
                 = (if dn then P else (case G' of Some (gp, goff) \<Rightarrow> gp # P | None \<Rightarrow> P))))"
proof (induction path arbitrary: s dn G child lv)
  case Nil
  then show ?case by (cases dn) auto
next
  case (Cons a path)
  obtain offset pid where a: "a = (offset, pid)" by (cases a)
  let ?s1 = "s\<lparr>bufLog := bufLog s @ [Pin pid]\<rparr>"
  let ?G1 = "if dn then G else Some (pid, int offset)"
  from splitParents_Cons [OF Cons.prems(1) [unfolded a]] obtain pd kk where
    pz: "0 < pid" and pd: "nonLeafAt s pid = Some pd"
    and fi: "firstInvalid t (pageNoArray pd) offset = Some kk"
    and cs: "(kk = NONLEAFSIZE t + 1
          \<and> (\<exists>s2 G2. splitParent t k ?s1 offset pid pd path dn ?G1 = Some (s2, G2)
                \<and> splitParents t k s2 path True G2 = Some (s', G')))
        \<or> (kk \<noteq> NONLEAFSIZE t + 1 \<and> G' = ?G1 \<and> G' \<noteq> None \<and> s' = s\<lparr>bufLog := bufLog s'\<rparr>)"
    by blast
  from Cons.prems(4) pd have
    pq: "level pd = lv" "offset \<le> NONLEAFSIZE t"
      "\<forall>j. 1 \<le> j \<and> j \<le> offset \<longrightarrow> pageNoArray pd ! j \<noteq> 0"
      "pathOk t s pid (lv + 1) path"
    by (auto simp: a)
  have ni: "nodeInv t (pages s) pd" using Cons.prems(2) pd by (rule grown_node)
  have l2: "2 \<le> lv" using ni pq(1) by (simp add: nodeInv_def)
  have dl: "dn \<longleftrightarrow> 3 \<le> level pd" using Cons.prems(5,6) pq(1) by (cases dn) auto
  from cs show ?case
  proof (elim disjE conjE exE)
    assume nf: "kk \<noteq> NONLEAFSIZE t + 1" and g: "G' = ?G1" and s': "s' = s\<lparr>bufLog := bufLog s'\<rparr>"
    from splitParents_Cons_log [OF Cons.prems(1) [unfolded a] fi pd nf] obtain gp goff where
      G1: "?G1 = Some (gp, goff)"
      and lg: "bufLog s' = bufLog s @ Pin pid # (if gp \<noteq> pid then [Unpin pid] else [])"
      by blast
    have gpp: "dn \<longleftrightarrow> gp \<noteq> pid"
    proof (cases dn)
      case True
      with Cons.prems(5) G1 obtain g0 where "nonLeafAt s gp = Some g0" "level g0 = 2" "2 < lv"
        by auto
      with pd pq(1) True show ?thesis by auto
    next
      case False
      with G1 show ?thesis by simp
    qed
    have fr: "\<And>p. nonLeafAt s' p = nonLeafAt s p" by (subst s') simp
    have ln: "length (pages s') = length (pages s)" by (subst s') simp
    have "\<forall>P. pinsAfter P (Pin pid # (if gp \<noteq> pid then [Unpin pid] else []))
                 = (if dn then P else (case G' of Some (gp, goff) \<Rightarrow> gp # P | None \<Rightarrow> P))"
      using gpp g G1 by (cases dn) auto
    with lg fr ln g show ?thesis by auto
  next
    fix s2 G2
    assume kk: "kk = NONLEAFSIZE t + 1"
      and sp: "splitParent t k ?s1 offset pid pd path dn ?G1 = Some (s2, G2)"
      and rec: "splitParents t k s2 path True G2 = Some (s', G')"
    have len: "length (pageNoArray pd) = NONLEAFSIZE t + 1" "pageNoArray pd ! 0 \<noteq> 0"
      using ni by (simp_all add: nodeInv_def)
    have up: "\<forall>j. offset \<le> j \<and> j < kk \<longrightarrow> pageNoArray pd ! j \<noteq> 0"
      using fi len(1) by (rule firstInvalid_Some) (use pq(2) in simp)
    have full: "\<forall>j. j \<le> NONLEAFSIZE t \<longrightarrow> pageNoArray pd ! j \<noteq> 0"
    proof (intro allI impI)
      fix j assume j: "j \<le> NONLEAFSIZE t"
      consider "j = 0" | "1 \<le> j" "j \<le> offset" | "offset \<le> j" "j < kk"
        using j kk by linarith
      then show "pageNoArray pd ! j \<noteq> 0"
        using len(2) pq(3) up by cases auto
    qed
    have sg: "grown t s2"
      "path \<noteq> [] \<longrightarrow> pathOk t s2 pid (level pd + 1) path"
      "\<forall>p n. nonLeafAt ?s1 p = Some n \<and> level n < level pd \<longrightarrow> nonLeafAt s2 p = Some n"
      "\<not> dn \<longrightarrow> (\<exists>gp goff g. G2 = Some (gp, goff) \<and> nonLeafAt s2 gp = Some g \<and> level g = level pd)"
      "dn \<longrightarrow> G2 = ?G1"
      "metaAt s2 = metaAt ?s1"
    proof (rule_tac [!] splitParent_grown [OF sp _ Cons.prems(3) _ _ full])
    qed (use Cons.prems(2) pd pz pq in simp_all)
    have "\<exists>pl pr pp gpp.
        splitNonLeaf t pd = Some (pl, pr)
      \<and> length (pages ?s1) \<le> gpp \<and> gpp < length (pages s2) \<and> pp \<noteq> gpp \<and> pp \<noteq> pid
      \<and> nonLeafAt s2 pid = Some pl \<and> nonLeafAt s2 gpp = Some pr
      \<and> (\<not> dn \<longrightarrow> G2 = (if k \<ge> nkeyArray pd ! (NONLEAFSIZE t div 2)
                          then Some (gpp, int offset - int (NONLEAFSIZE t div 2) - 1)
                          else Some (pid, int offset)))
      \<and> bufLog s2 = bufLog ?s1 @ [Pin pp, Pin gpp, Unpin pp]
           @ (if k \<ge> nkeyArray pd ! (NONLEAFSIZE t div 2)
              then Unpin pid # (if 3 \<le> level pd then [Unpin gpp] else [])
              else Unpin gpp # (if 3 \<le> level pd then [Unpin pid] else []))"
      using sp
    proof (rule splitParent_detail)
    qed (use Cons.prems(2,3) pd pz pq in simp_all)
    then obtain pp gpp where
      d: "length (pages s) \<le> gpp" "gpp < length (pages s2)" "pp \<noteq> gpp" "pp \<noteq> pid"
        "\<not> dn \<longrightarrow> G2 = (if k \<ge> nkeyArray pd ! (NONLEAFSIZE t div 2)
                          then Some (gpp, int offset - int (NONLEAFSIZE t div 2) - 1)
                          else Some (pid, int offset))"
      and lg: "bufLog s2 = bufLog s @ Pin pid # [Pin pp, Pin gpp, Unpin pp]
           @ (if k \<ge> nkeyArray pd ! (NONLEAFSIZE t div 2)
              then Unpin pid # (if 3 \<le> level pd then [Unpin gpp] else [])
              else Unpin gpp # (if 3 \<le> level pd then [Unpin pid] else []))"
      by auto
    have gpid: "gpp \<noteq> pid" using d(1) pd by (auto simp: nonLeafAt_Some)
    let ?evA = "Pin pid # [Pin pp, Pin gpp, Unpin pp]
           @ (if k \<ge> nkeyArray pd ! (NONLEAFSIZE t div 2)
              then Unpin pid # (if 3 \<le> level pd then [Unpin gpp] else [])
              else Unpin gpp # (if 3 \<le> level pd then [Unpin pid] else []))"
    have pa: "pinsAfter P ?evA
                = (if dn then P else (case G2 of Some (gp, goff) \<Rightarrow> gp # P | None \<Rightarrow> P))" for P
      using pins_split [of gpp pp pid P "k \<ge> nkeyArray pd ! (NONLEAFSIZE t div 2)" "3 \<le> level pd"]
        d(3,4,5) gpid dl
      by (cases dn) auto
    have G2: "\<exists>gp goff g. G2 = Some (gp, goff) \<and> nonLeafAt s2 gp = Some g \<and> level g = 2 \<and> 2 < lv + 1"
    proof (cases dn)
      case False
      with sg(4) Cons.prems(6) pq(1) show ?thesis by auto
    next
      case True
      with Cons.prems(5) obtain gp goff g where
        g: "G = Some (gp, goff)" "nonLeafAt s gp = Some g" "level g = 2" "2 < lv" by blast
      with sg(3) pq(1) have "nonLeafAt s2 gp = Some g" by simp
      with g sg(5) True show ?thesis by simp
    qed
    have rest: "(\<forall>p n. nonLeafAt s2 p = Some n \<and> level n < lv + 1 \<longrightarrow> nonLeafAt s' p = Some n)
       \<and> G' = G2 \<and> length (pages s2) \<le> length (pages s')
       \<and> (\<exists>evs. bufLog s' = bufLog s2 @ evs \<and> (\<forall>P. pinsAfter P evs = P))"
    proof (cases path)
      case Nil
      with rec show ?thesis by auto
    next
      case (Cons b rest)
      then have "pathOk t s2 pid (lv + 1) path" using sg(2) pq(1) by simp
      from Cons.IH [OF rec sg(1) \<open>traitsOk t\<close> this] G2 show ?thesis by simp
    qed
    then obtain evs where ev: "bufLog s' = bufLog s2 @ evs" "\<forall>P. pinsAfter P evs = P" by blast
    have fr: "\<forall>p n. nonLeafAt s p = Some n \<and> level n < lv \<longrightarrow> nonLeafAt s' p = Some n"
    proof (intro allI impI)
      fix p n assume "nonLeafAt s p = Some n \<and> level n < lv"
      with sg(3) pq(1) have "nonLeafAt s2 p = Some n \<and> level n < lv + 1" by simp
      with rest show "nonLeafAt s' p = Some n" by blast
    qed
    have "bufLog s' = bufLog s @ (?evA @ evs)" using ev(1) lg by simp
    moreover have "\<forall>P. pinsAfter P (?evA @ evs)
                 = (if dn then P else (case G' of Some (gp, goff) \<Rightarrow> gp # P | None \<Rightarrow> P))"
      using pa ev(2) rest by (simp only: pinsAfter_append) simp
    ultimately have "\<exists>evs. bufLog s' = bufLog s @ evs
         \<and> (\<forall>P. pinsAfter P evs
                 = (if dn then P else (case G' of Some (gp, goff) \<Rightarrow> gp # P | None \<Rightarrow> P)))"
      by blast
    moreover have "dn \<longrightarrow> G' = G" using rest sg(5) by simp
    moreover have "length (pages s) \<le> length (pages s')" using rest d(1,2) by simp
    ultimately show ?thesis using fr by blast
  qed
qed

section \<open>The parent of the leaf that is split\<close>

lemma nonLeafSlot_keys:
  "nonLeafSlot t n key i0 = Some i \<Longrightarrow> \<forall>j. i0 \<le> j \<and> j < i \<longrightarrow> nkeyArray n ! j \<le> key"
proof (induction t n key i0 rule: nonLeafSlot.induct)
  case (1 t currPage keyValue i0)
  show ?case
  proof (cases "i0 < NONLEAFSIZE t")
    case False
    with "1.prems" show ?thesis
      by (subst (asm) nonLeafSlot.simps) auto
  next
    case True
    from "1.prems" True obtain p where g: "get (pageNoArray currPage) (i0 + 1) = Some p"
      by (subst (asm) nonLeafSlot.simps) (auto simp: bind_eq_Some_conv)
    show ?thesis
    proof (cases "p = 0")
      case pz: True
      with "1.prems" True g show ?thesis
        by (subst (asm) nonLeafSlot.simps) auto
    next
      case pnz: False
      from "1.prems" True g pnz obtain k where
        k: "get (nkeyArray currPage) i0 = Some k"
        and r: "(if k \<le> keyValue then nonLeafSlot t currPage keyValue (i0 + 1) else Some i0) = Some i"
        by (subst (asm) nonLeafSlot.simps) (auto simp: bind_eq_Some_conv)
      show ?thesis
      proof (cases "k \<le> keyValue")
        case False
        with r show ?thesis by auto
      next
        case kk: True
        with r have rec: "nonLeafSlot t currPage keyValue (i0 + 1) = Some i" by simp
        have ih: "\<forall>j. i0 + 1 \<le> j \<and> j < i \<longrightarrow> nkeyArray currPage ! j \<le> keyValue"
          by (rule "1.IH" [OF True g pnz k kk rec])
        have "nkeyArray currPage ! i0 \<le> keyValue" using k kk by (simp add: get_Some_iff)
        with ih show ?thesis
          by (metis Suc_eq_plus1 Suc_leI le_neq_implies_less)
      qed
    qed
  qed
qed

lemma descend_head:
  "descend t k lvl s d lp path = Some (s', leaf, path') \<Longrightarrow>
   path' = path
   \<or> (\<exists>i p rest n. path' = (i, p) # rest \<and> nonLeafAt s p = Some n
         \<and> (\<forall>j. j < i \<longrightarrow> nkeyArray n ! j \<le> k))"
proof (induction t k lvl s d lp path rule: descend.induct)
  case (1 t keyValue rootLevel s depth lastPage pathOfTraversal)
  show ?case
  proof (cases "depth < rootLevel")
    case False
    with "1.prems" show ?thesis by (simp add: descend.simps)
  next
    case True
    from "1.prems" True obtain currPage k0 i child s1 tempPage where
      a: "nonLeafAt s lastPage = Some currPage"
      and b: "get (nkeyArray currPage) 0 = Some k0"
      and c: "(if keyValue < k0 then Some 0 else nonLeafSlot t currPage keyValue 0) = Some i"
      and d: "get (pageNoArray currPage) i = Some child"
      and e: "readPage (unPinPage s lastPage) child = Some (s1, tempPage)"
      and f: "descend t keyValue rootLevel s1 (depth + 1) child ((i, lastPage) # pathOfTraversal)
                = Some (s', leaf, path')"
      by (subst (asm) descend.simps) (auto simp: bind_eq_Some_conv)
    have s1: "s1 = s\<lparr>bufLog := bufLog s @ [Unpin lastPage, Pin child]\<rparr>"
      using e by (auto simp: readPage_def unPinPage_def split: if_splits)
    have ks: "\<forall>j. j < i \<longrightarrow> nkeyArray currPage ! j \<le> keyValue"
    proof (cases "keyValue < k0")
      case True with c show ?thesis by auto
    next
      case False
      with c have "nonLeafSlot t currPage keyValue 0 = Some i" by simp
      from nonLeafSlot_keys [OF this] show ?thesis by simp
    qed
    from "1.IH" [OF True a b c d e refl f] show ?thesis
    proof
      assume "path' = (i, lastPage) # pathOfTraversal"
      with a ks show ?thesis by auto
    next
      assume "\<exists>i p rest n. path' = (i, p) # rest \<and> nonLeafAt s1 p = Some n
         \<and> (\<forall>j. j < i \<longrightarrow> nkeyArray n ! j \<le> keyValue)"
      then show ?thesis by (simp add: s1)
    qed
  qed
qed

lemma splitParents_top:
  assumes sp: "splitParents t k s ((offset, pid) # rest) False None = Some (s2, G')"
    and g: "grown t s" and tr: "traitsOk t"
    and po: "pathOk t s child 2 ((offset, pid) # rest)"
  shows "\<exists>pd. nonLeafAt s pid = Some pd \<and> pageNoArray pd ! offset = child \<and> level pd = 2
     \<and> offset \<le> NONLEAFSIZE t
     \<and> ((firstInvalid t (pageNoArray pd) offset \<noteq> Some (NONLEAFSIZE t + 1)
          \<and> G' = Some (pid, int offset) \<and> nonLeafAt s2 pid = Some pd)
       \<or> (firstInvalid t (pageNoArray pd) offset = Some (NONLEAFSIZE t + 1)
          \<and> (\<exists>pl pr gpp. splitNonLeaf t pd = Some (pl, pr)
                \<and> length (pages s) \<le> gpp \<and> gpp < length (pages s2)
                \<and> nonLeafAt s2 pid = Some pl \<and> nonLeafAt s2 gpp = Some pr
                \<and> G' = (if k \<ge> nkeyArray pd ! (NONLEAFSIZE t div 2)
                        then Some (gpp, int offset - int (NONLEAFSIZE t div 2) - 1)
                        else Some (pid, int offset)))))"
proof -
  let ?s1 = "s\<lparr>bufLog := bufLog s @ [Pin pid]\<rparr>"
  from splitParents_Cons [OF sp] obtain pd kk where
    pz: "0 < pid" and pd: "nonLeafAt s pid = Some pd"
    and fi: "firstInvalid t (pageNoArray pd) offset = Some kk"
    and cs: "(kk = NONLEAFSIZE t + 1
          \<and> (\<exists>s2a G2. splitParent t k ?s1 offset pid pd rest False (Some (pid, int offset))
                         = Some (s2a, G2)
                \<and> splitParents t k s2a rest True G2 = Some (s2, G')))
        \<or> (kk \<noteq> NONLEAFSIZE t + 1 \<and> G' = Some (pid, int offset) \<and> G' \<noteq> None
            \<and> s2 = s\<lparr>bufLog := bufLog s2\<rparr>)"
    by auto
  from po pd have
    pq: "level pd = 2" "offset \<le> NONLEAFSIZE t" "pageNoArray pd ! offset = child"
      "\<forall>j. 1 \<le> j \<and> j \<le> offset \<longrightarrow> pageNoArray pd ! j \<noteq> 0"
      "pathOk t s pid 3 rest"
    by auto
  have ni: "nodeInv t (pages s) pd" using g pd by (rule grown_node)
  from cs have "(firstInvalid t (pageNoArray pd) offset \<noteq> Some (NONLEAFSIZE t + 1)
          \<and> G' = Some (pid, int offset) \<and> nonLeafAt s2 pid = Some pd)
       \<or> (firstInvalid t (pageNoArray pd) offset = Some (NONLEAFSIZE t + 1)
          \<and> (\<exists>pl pr gpp. splitNonLeaf t pd = Some (pl, pr)
                \<and> length (pages s) \<le> gpp \<and> gpp < length (pages s2)
                \<and> nonLeafAt s2 pid = Some pl \<and> nonLeafAt s2 gpp = Some pr
                \<and> G' = (if k \<ge> nkeyArray pd ! (NONLEAFSIZE t div 2)
                        then Some (gpp, int offset - int (NONLEAFSIZE t div 2) - 1)
                        else Some (pid, int offset))))"
  proof (elim disjE conjE exE)
    assume nf: "kk \<noteq> NONLEAFSIZE t + 1" and G: "G' = Some (pid, int offset)"
      and s2: "s2 = s\<lparr>bufLog := bufLog s2\<rparr>"
    have "nonLeafAt s2 pid = Some pd" using pd by (subst s2) simp
    with nf G fi show ?thesis by simp
  next
    fix s2a G2
    assume kk: "kk = NONLEAFSIZE t + 1"
      and spl: "splitParent t k ?s1 offset pid pd rest False (Some (pid, int offset)) = Some (s2a, G2)"
      and rec: "splitParents t k s2a rest True G2 = Some (s2, G')"
    have len: "length (pageNoArray pd) = NONLEAFSIZE t + 1" "pageNoArray pd ! 0 \<noteq> 0"
      "length (nkeyArray pd) = NONLEAFSIZE t"
      using ni by (simp_all add: nodeInv_def)
    have up: "\<forall>j. offset \<le> j \<and> j < kk \<longrightarrow> pageNoArray pd ! j \<noteq> 0"
      using fi len(1) by (rule firstInvalid_Some) (use pq(2) in simp)
    have full: "\<forall>j. j \<le> NONLEAFSIZE t \<longrightarrow> pageNoArray pd ! j \<noteq> 0"
    proof (intro allI impI)
      fix j assume j: "j \<le> NONLEAFSIZE t"
      consider "j = 0" | "1 \<le> j" "j \<le> offset" | "offset \<le> j" "j < kk"
        using j kk by linarith
      then show "pageNoArray pd ! j \<noteq> 0"
        using len(2) pq(4) up by cases auto
    qed
    have sg: "grown t s2a"
      "rest \<noteq> [] \<longrightarrow> pathOk t s2a pid (level pd + 1) rest"
      "\<forall>p n. nonLeafAt ?s1 p = Some n \<and> level n < level pd \<longrightarrow> nonLeafAt s2a p = Some n"
      "\<not> False \<longrightarrow> (\<exists>gp goff g. G2 = Some (gp, goff) \<and> nonLeafAt s2a gp = Some g \<and> level g = level pd)"
      "False \<longrightarrow> G2 = Some (pid, int offset)"
      "metaAt s2a = metaAt ?s1"
    proof (rule_tac [!] splitParent_grown [OF spl _ tr _ _ full])
    qed (use g pd pz pq in simp_all)
    have "\<exists>pl pr pp gpp.
        splitNonLeaf t pd = Some (pl, pr)
      \<and> length (pages ?s1) \<le> gpp \<and> gpp < length (pages s2a) \<and> pp \<noteq> gpp \<and> pp \<noteq> pid
      \<and> nonLeafAt s2a pid = Some pl \<and> nonLeafAt s2a gpp = Some pr
      \<and> (\<not> False \<longrightarrow> G2 = (if k \<ge> nkeyArray pd ! (NONLEAFSIZE t div 2)
                          then Some (gpp, int offset - int (NONLEAFSIZE t div 2) - 1)
                          else Some (pid, int offset)))
      \<and> bufLog s2a = bufLog ?s1 @ [Pin pp, Pin gpp, Unpin pp]
           @ (if k \<ge> nkeyArray pd ! (NONLEAFSIZE t div 2)
              then Unpin pid # (if 3 \<le> level pd then [Unpin gpp] else [])
              else Unpin gpp # (if 3 \<le> level pd then [Unpin pid] else []))"
      using spl
    proof (rule splitParent_detail)
    qed (use g tr pd pz pq in simp_all)
    then obtain pl pr gpp where
      d: "splitNonLeaf t pd = Some (pl, pr)" "length (pages s) \<le> gpp" "gpp < length (pages s2a)"
        "nonLeafAt s2a pid = Some pl" "nonLeafAt s2a gpp = Some pr"
        "G2 = (if k \<ge> nkeyArray pd ! (NONLEAFSIZE t div 2)
                          then Some (gpp, int offset - int (NONLEAFSIZE t div 2) - 1)
                          else Some (pid, int offset))"
      by auto
    have lv: "level pl = 2" "level pr = 2"
      using d(1) splitNonLeaf_result [OF len(3,1)] tr pq(1) by (auto simp: traitsOk_def)
    have rest: "(\<forall>p n. nonLeafAt s2a p = Some n \<and> level n < 3 \<longrightarrow> nonLeafAt s2 p = Some n)
       \<and> G' = G2 \<and> length (pages s2a) \<le> length (pages s2)"
    proof (cases rest)
      case Nil
      with rec show ?thesis by auto
    next
      case (Cons b rest')
      then have p3: "pathOk t s2a pid 3 rest" using sg(2) pq(1) by simp
      have "(\<forall>p n. nonLeafAt s2a p = Some n \<and> level n < 3 \<longrightarrow> nonLeafAt s2 p = Some n)
         \<and> (True \<longrightarrow> G' = G2) \<and> length (pages s2a) \<le> length (pages s2)
         \<and> (\<exists>evs. bufLog s2 = bufLog s2a @ evs
               \<and> (\<forall>P. pinsAfter P evs
                       = (if True then P else (case G' of Some (gp, goff) \<Rightarrow> gp # P | None \<Rightarrow> P))))"
        using rec sg(1) tr p3
      proof (rule splitParents_detail)
      qed (use sg(4) pq(1) in auto)
      then show ?thesis by simp
    qed
    have "nonLeafAt s2 pid = Some pl" "nonLeafAt s2 gpp = Some pr"
      using rest d(4,5) lv by simp_all
    with d rest kk fi show ?thesis by auto
  qed
  with pd pq show ?thesis by blast
qed

text \<open>
  C7: in an index that satisfies the invariant of the tree, when the leaf \<open>O\<close> that the
  descent reaches in insert mode is full, the entries of the slots \<open>m\<close> to \<open>L - 1\<close>, with
  \<open>m = L / 2\<close>, are in the newly allocated page \<open>R\<close> from slot 0 on and are cleared in \<open>O\<close>;
  \<open>R\<close> has the old right sibling of \<open>O\<close>, and \<open>O\<close> has \<open>R\<close> as its right sibling. The key
  that was at slot \<open>m\<close> of \<open>O\<close>, which is now the first key of \<open>R\<close>, is promoted to the parent
  of \<open>O\<close>: the parent is the node \<open>pd\<close> whose pointer \<open>offset\<close> the descent followed to \<open>O\<close>
  or, when that node was full and has been split, the half \<open>g\<close> of it that holds the
  pointer to \<open>O\<close> (the right half in a new page when the new key is not smaller than the
  median of \<open>pd\<close>, the left half in the page of \<open>pd\<close> otherwise); at the page \<open>G\<close> of the
  parent the node is \<open>g\<close> with the promoted key entered at the slot \<open>off\<close> of the pointer
  to \<open>O\<close> and \<open>R\<close> entered as the pointer on its right, the keys and pointers behind them
  moved right by one slot, and nothing else changed. The result targets \<open>R\<close> at slot
  \<open>insert slot - m\<close> when the new key is greater than the promoted key, and \<open>O\<close> at the
  insert slot otherwise.
\<close>

theorem C7_leaf_split:
  assumes run: "getPageNoAndOffsetOfKeyInsert t s key True
                  = Some (s', pageNo, insertAt, endOfRecordsOffset, lastPageNo)"
    and wf: "grown t s" and tr: "traitsOk t"
    and leaf: "descentLeaf t s key = Some (op, l)"
    and full: "length (takeWhile occupied (ridArray l)) = LEAFSIZE t"
  shows "\<exists>R pid offset pd G g off kk n.
      R = length (pages s') - 1 \<and> length (pages s) \<le> R
    \<and> leafAt s' R = Some \<lparr>keyArray = drop (LEAFSIZE t div 2) (keyArray l)
                                        @ replicate (LEAFSIZE t div 2) 0,
                           ridArray = drop (LEAFSIZE t div 2) (ridArray l)
                                        @ replicate (LEAFSIZE t div 2) noRid,
                           rightSibPageNo = rightSibPageNo l\<rparr>
    \<and> leafAt s' op = Some \<lparr>keyArray = take (LEAFSIZE t div 2) (keyArray l)
                                        @ replicate (LEAFSIZE t - LEAFSIZE t div 2) 0,
                           ridArray = take (LEAFSIZE t div 2) (ridArray l)
                                        @ replicate (LEAFSIZE t - LEAFSIZE t div 2) noRid,
                           rightSibPageNo = R\<rparr>
    \<and> descentParent t s key = Some (pid, offset, pd) \<and> pageNoArray pd ! offset = op
    \<and> (if firstInvalid t (pageNoArray pd) offset = Some (NONLEAFSIZE t + 1)
        then (\<exists>pl pr. splitNonLeaf t pd = Some (pl, pr)
               \<and> (if key \<ge> nkeyArray pd ! (NONLEAFSIZE t div 2)
                   then length (pages s) \<le> G \<and> G < R \<and> g = pr
                        \<and> off + NONLEAFSIZE t div 2 + 1 = offset
                   else G = pid \<and> g = pl \<and> off = offset))
        else G = pid \<and> g = pd \<and> off = offset)
    \<and> pageNoArray g ! off = op
    \<and> firstInvalid t (pageNoArray g) off = Some kk \<and> kk \<le> NONLEAFSIZE t
    \<and> nonLeafAt s' G = Some n
    \<and> n = g\<lparr>nkeyArray := withSlot (nkeyArray g) off (kk - 1) (keyArray l ! (LEAFSIZE t div 2)),
             pageNoArray := withSlot (pageNoArray g) (Suc off) kk R\<rparr>
    \<and> pageNoArray n ! off = op
    \<and> nkeyArray n ! off = keyArray l ! (LEAFSIZE t div 2)
    \<and> pageNoArray n ! (off + 1) = R
    \<and> (drop (LEAFSIZE t div 2) (keyArray l) @ replicate (LEAFSIZE t div 2) 0) ! 0
         = keyArray l ! (LEAFSIZE t div 2)
    \<and> lastPageNo = op
    \<and> (if key > keyArray l ! (LEAFSIZE t div 2)
        then pageNo = R
             \<and> insertAt = int (length (takeWhile (below key) (zip (keyArray l) (ridArray l))))
                            - int (LEAFSIZE t div 2)
        else pageNo = op
             \<and> insertAt = int (length (takeWhile (below key) (zip (keyArray l) (ridArray l)))))"
proof -
  let ?m = "LEAFSIZE t div 2"
  let ?M = "NONLEAFSIZE t div 2"
  let ?a = "length (takeWhile (below key) (zip (keyArray l) (ridArray l)))"
  from leaf obtain rootData s1 path where
    rn: "nonLeafAt s (rootPageNum s) = Some rootData"
    and de: "descend t key (level rootData) s 1 (rootPageNum s) [] = Some (s1, op, path)"
    and lf: "leafAt s1 op = Some l"
    by (rule descentLeaf_Some)
  from run wf obtain rootData' s1' lastPage path' dataPage i a where
    rn': "nonLeafAt s (rootPageNum s) = Some rootData'"
    and de': "descend t key (level rootData') s 1 (rootPageNum s) [] = Some (s1', lastPage, path')"
    and lf': "leafAt s1' lastPage = Some dataPage"
    and po': "pathOk t s1' lastPage 2 path'" and g1': "grown t s1'"
    and ls': "leafSlot t dataPage key True 0 (LEAFSIZE t) = Some (i, a)"
    and alt: "(i = LEAFSIZE t
         \<and> (\<exists>s2 G. splitParents t key s1' path' False None = Some (s2, Some G)
               \<and> splitLeaf t key s2 lastPage a G
                    = Some (s', pageNo, insertAt, endOfRecordsOffset, lastPageNo)))
       \<or> (i \<noteq> LEAFSIZE t \<and> s' = unPinPage s1' lastPage
           \<and> (pageNo, insertAt, endOfRecordsOffset, lastPageNo) = (lastPage, int a, i, lastPage))"
    by (rule getPageNo_grown_cases)
  have same: "rootData' = rootData" "s1' = s1" "lastPage = op" "path' = path" "dataPage = l"
    using rn rn' de de' lf lf' by simp_all
  note po = po' [unfolded same] and g1 = g1' [unfolded same]
  have li: "leafInv t op l" using g1 lf by (rule grown_leaf)
  then have sizes: "length (keyArray l) = LEAFSIZE t" "length (ridArray l) = LEAFSIZE t"
    by (simp_all add: leafInv_def)
  have ls: "leafSlot t l key True 0 (LEAFSIZE t) = Some (LEAFSIZE t, ?a)"
    using leafSlot_insert_mode [OF sizes(2) sizes(1), of 0 "LEAFSIZE t" key] full by simp
  with ls' same have ia: "i = LEAFSIZE t" "a = ?a" by simp_all
  with alt same obtain s2 G where
    sp: "splitParents t key s1 path False None = Some (s2, Some G)"
    and sl: "splitLeaf t key s2 op ?a G = Some (s', pageNo, insertAt, endOfRecordsOffset, lastPageNo)"
    by auto
  obtain gp goff where G: "G = (gp, goff)" by (cases G)
  from sp obtain offset pid rest where path: "path = (offset, pid) # rest"
    by (cases path) auto
  from descend_frame [OF de] obtain evs where s1: "s1 = s\<lparr>bufLog := bufLog s @ evs\<rparr>"
    by blast
  then have len1: "length (pages s1) = length (pages s)" by simp
  from splitParents_top [OF sp [unfolded path] g1 tr po [unfolded path]] obtain pd where
    pd: "nonLeafAt s1 pid = Some pd" and pdo: "pageNoArray pd ! offset = op"
    and offN: "offset \<le> NONLEAFSIZE t"
    and top: "(firstInvalid t (pageNoArray pd) offset \<noteq> Some (NONLEAFSIZE t + 1)
          \<and> Some G = Some (pid, int offset) \<and> nonLeafAt s2 pid = Some pd)
       \<or> (firstInvalid t (pageNoArray pd) offset = Some (NONLEAFSIZE t + 1)
          \<and> (\<exists>pl pr gpp. splitNonLeaf t pd = Some (pl, pr)
                \<and> length (pages s1) \<le> gpp \<and> gpp < length (pages s2)
                \<and> nonLeafAt s2 pid = Some pl \<and> nonLeafAt s2 gpp = Some pr
                \<and> Some G = (if key \<ge> nkeyArray pd ! ?M
                        then Some (gpp, int offset - int ?M - 1)
                        else Some (pid, int offset))))"
    by blast
  have dpar: "descentParent t s key = Some (pid, offset, pd)"
    using rn de pd by (simp add: descentParent_def path)
  have keys: "\<forall>j. j < offset \<longrightarrow> nkeyArray pd ! j \<le> key"
    using descend_head [OF de] pd by (auto simp: path s1)
  have pni: "nodeInv t (pages s1) pd" using g1 pd by (rule grown_node)
  then have psz: "length (nkeyArray pd) = NONLEAFSIZE t" "length (pageNoArray pd) = NONLEAFSIZE t + 1"
    by (simp_all add: nodeInv_def)
  have g2: "grown t s2"
    using splitParents_grown [OF sp g1 tr po] by simp
  from splitParents_leaf_frame [OF sp lf] have l2: "leafAt s2 op = Some l"
    and len2: "length (pages s1) \<le> length (pages s2)" by simp_all
  let ?R = "length (pages s2)"
  from splitLeaf_Some [OF sl [unfolded G]] obtain g dp median pd' dl dr where
    g0: "0 \<le> goff" and npd: "nonLeafAt s2 gp = Some g" and ldp: "leafAt s2 op = Some dp"
    and med: "get (keyArray dp) ?m = Some median"
    and si: "shiftInsert t g (nat goff) median ?R = Some pd'"
    and sn: "splitLeafNode t dp ?R = Some (dl, dr)"
    and s': "s' = s2\<lparr>pages := (pages s2 @ [BlankPage])[gp := NonLeafPage pd', op := LeafPage dl,
                                                 ?R := LeafPage dr],
              bufLog := bufLog s'\<rparr>"
    and out: "(pageNo, insertAt, endOfRecordsOffset, lastPageNo) = (if key > median
             then (?R, int ?a - int ?m,
                   if LEAFSIZE t mod 2 \<noteq> 0 then ?m + 1 else ?m, op)
             else (op, int ?a, ?m, op))"
    by blast
  have dp: "dp = l" using l2 ldp by simp
  have m: "?m < LEAFSIZE t" "median = keyArray l ! ?m"
    using med dp sizes by (simp_all add: get_Some_iff)
  have dlr: "dl = \<lparr>keyArray = take ?m (keyArray l) @ replicate (LEAFSIZE t - ?m) 0,
                   ridArray = take ?m (ridArray l) @ replicate (LEAFSIZE t - ?m) noRid,
                   rightSibPageNo = ?R\<rparr>"
    "dr = \<lparr>keyArray = drop ?m (keyArray l) @ replicate ?m 0,
           ridArray = drop ?m (ridArray l) @ replicate ?m noRid,
           rightSibPageNo = rightSibPageNo l\<rparr>"
    using sn dp splitLeafNode_result [OF sizes, of ?R] by simp_all
  have gni: "nodeInv t (pages s2) g" using g2 npd by (rule grown_node)
  then have gsz: "length (pageNoArray g) = NONLEAFSIZE t + 1" "length (nkeyArray g) = NONLEAFSIZE t"
    by (simp_all add: nodeInv_def)
  from shiftInsert_result [OF si gsz] obtain kk where
    kk: "firstInvalid t (pageNoArray g) (nat goff) = Some kk" "nat goff \<le> kk" "kk \<le> NONLEAFSIZE t"
      "nat goff < NONLEAFSIZE t"
    and pd': "pd' = g\<lparr>nkeyArray := withSlot (nkeyArray g) (nat goff) (kk - 1) median,
                    pageNoArray := withSlot (pageNoArray g) (Suc (nat goff)) kk ?R\<rparr>"
    by blast
  have par: "(if firstInvalid t (pageNoArray pd) offset = Some (NONLEAFSIZE t + 1)
        then (\<exists>pl pr. splitNonLeaf t pd = Some (pl, pr)
               \<and> (if key \<ge> nkeyArray pd ! ?M
                   then length (pages s) \<le> gp \<and> gp < ?R \<and> g = pr
                        \<and> nat goff + ?M + 1 = offset
                   else gp = pid \<and> g = pl \<and> nat goff = offset))
        else gp = pid \<and> g = pd \<and> nat goff = offset)
      \<and> pageNoArray g ! nat goff = op"
    using top
  proof (elim disjE conjE exE)
    assume "firstInvalid t (pageNoArray pd) offset \<noteq> Some (NONLEAFSIZE t + 1)"
      "Some G = Some (pid, int offset)" "nonLeafAt s2 pid = Some pd"
    with G npd pdo show ?thesis by auto
  next
    fix pl pr gpp
    assume fu: "firstInvalid t (pageNoArray pd) offset = Some (NONLEAFSIZE t + 1)"
      and h: "splitNonLeaf t pd = Some (pl, pr)" "length (pages s1) \<le> gpp" "gpp < length (pages s2)"
        "nonLeafAt s2 pid = Some pl" "nonLeafAt s2 gpp = Some pr"
        "Some G = (if key \<ge> nkeyArray pd ! ?M then Some (gpp, int offset - int ?M - 1)
                   else Some (pid, int offset))"
    have n1: "1 \<le> NONLEAFSIZE t" using tr by (simp add: traitsOk_def)
    from h(1) splitNonLeaf_result [OF psz n1] have
      plr: "pageNoArray pl = take (?M + 1) (pageNoArray pd) @ replicate (NONLEAFSIZE t - ?M) 0"
        "pageNoArray pr = drop (?M + 1) (pageNoArray pd) @ replicate (?M + 1) 0"
      by auto
    show ?thesis
    proof (cases "key \<ge> nkeyArray pd ! ?M")
      case True
      with h(6) G have e: "gp = gpp" "goff = int offset - int ?M - 1" by simp_all
      with g0 have o: "nat goff + ?M + 1 = offset" by simp
      have "g = pr" using npd h(5) e by simp
      moreover have "pageNoArray pr ! nat goff = op"
        using o offN psz pdo by (auto simp: plr nth_append add.commute)
      ultimately show ?thesis using fu h(1,2,3) True e o len1 by auto
    next
      case False
      with h(6) G have e: "gp = pid" "goff = int offset" by simp_all
      have "offset \<le> ?M"
      proof (rule ccontr)
        assume "\<not> offset \<le> ?M"
        then have "nkeyArray pd ! ?M \<le> key" using keys by simp
        with False show False by simp
      qed
      then have "pageNoArray pl ! offset = op"
        using psz pdo by (simp add: plr nth_append)
      moreover have "g = pl" using npd h(4) e by simp
      ultimately show ?thesis using fu h(1) False e by auto
    qed
  qed
  have opl: "op < length (pages s2)" using l2 by (simp add: leafAt_Some)
  have gpl: "gp < length (pages s2)" "gp \<noteq> op"
    using npd l2 by (auto simp: nonLeafAt_Some leafAt_Some)
  have ps': "pages s' = (pages s2 @ [BlankPage])[gp := NonLeafPage pd', op := LeafPage dl,
                                                 ?R := LeafPage dr]"
    by (subst s') simp
  have len': "length (pages s') = ?R + 1"
    by (simp add: ps')
  have r1: "leafAt s' ?R = Some dr"
    by (simp add: leafAt_Some ps')
  have r2: "leafAt s' op = Some dl"
    using opl by (simp add: leafAt_Some ps' nth_list_update)
  have r3: "nonLeafAt s' gp = Some pd'"
    using gpl by (simp add: nonLeafAt_Some ps' nth_list_update nth_append)
  have r3': "pageNoArray pd' ! nat goff = op" "nkeyArray pd' ! nat goff = median"
    "pageNoArray pd' ! (nat goff + 1) = ?R"
    using par kk gsz by (simp_all add: pd' withSlot_nth)
  have r4: "(drop ?m (keyArray l) @ replicate ?m 0) ! 0 = keyArray l ! ?m"
    using m sizes by (simp add: nth_append)
  have r5: "lastPageNo = op"
    using out by (simp split: if_splits)
  have r6: "(if key > keyArray l ! ?m
        then pageNo = ?R \<and> insertAt = int ?a - int ?m
        else pageNo = op \<and> insertAt = int ?a)"
    using out m by (simp split: if_splits)
  have r0: "?R = length (pages s') - 1" "length (pages s) \<le> ?R"
    using len' len1 len2 by simp_all
  let ?Q = "length (pages s') - 1"
  let ?K = "keyArray l ! ?m"
  have c1: "?Q = length (pages s') - 1" by simp
  have c2: "length (pages s) \<le> ?Q" using r0 by simp
  have c3: "leafAt s' ?Q = Some \<lparr>keyArray = drop ?m (keyArray l) @ replicate ?m 0,
                           ridArray = drop ?m (ridArray l) @ replicate ?m noRid,
                           rightSibPageNo = rightSibPageNo l\<rparr>"
    using r1 dlr(2) r0(1) by simp
  have c4: "leafAt s' op = Some \<lparr>keyArray = take ?m (keyArray l) @ replicate (LEAFSIZE t - ?m) 0,
                           ridArray = take ?m (ridArray l) @ replicate (LEAFSIZE t - ?m) noRid,
                           rightSibPageNo = ?Q\<rparr>"
    using r2 dlr(1) r0(1) by simp
  have c7: "(if firstInvalid t (pageNoArray pd) offset = Some (NONLEAFSIZE t + 1)
        then (\<exists>pl pr. splitNonLeaf t pd = Some (pl, pr)
               \<and> (if key \<ge> nkeyArray pd ! ?M
                   then length (pages s) \<le> gp \<and> gp < ?Q \<and> g = pr
                        \<and> nat goff + ?M + 1 = offset
                   else gp = pid \<and> g = pl \<and> nat goff = offset))
        else gp = pid \<and> g = pd \<and> nat goff = offset)"
    unfolding r0(1) [symmetric] using par by (rule conjunct1)
  have c8: "pageNoArray g ! nat goff = op" using par by (rule conjunct2)
  have c12: "pd' = g\<lparr>nkeyArray := withSlot (nkeyArray g) (nat goff) (kk - 1) ?K,
                     pageNoArray := withSlot (pageNoArray g) (Suc (nat goff)) kk ?Q\<rparr>"
    unfolding r0(1) [symmetric] m(2) [symmetric] by (rule pd')
  have c14: "nkeyArray pd' ! nat goff = ?K" using r3'(2) m(2) by simp
  have c15: "pageNoArray pd' ! (nat goff + 1) = ?Q" using r3'(3) r0(1) by simp
  have c18: "(if key > ?K
        then pageNo = ?Q \<and> insertAt = int ?a - int ?m
        else pageNo = op \<and> insertAt = int ?a)"
    unfolding r0(1) [symmetric] by (rule r6)
  have big: "?Q = length (pages s') - 1 \<and> length (pages s) \<le> ?Q
    \<and> leafAt s' ?Q = Some \<lparr>keyArray = drop ?m (keyArray l) @ replicate ?m 0,
                           ridArray = drop ?m (ridArray l) @ replicate ?m noRid,
                           rightSibPageNo = rightSibPageNo l\<rparr>
    \<and> leafAt s' op = Some \<lparr>keyArray = take ?m (keyArray l) @ replicate (LEAFSIZE t - ?m) 0,
                           ridArray = take ?m (ridArray l) @ replicate (LEAFSIZE t - ?m) noRid,
                           rightSibPageNo = ?Q\<rparr>
    \<and> descentParent t s key = Some (pid, offset, pd) \<and> pageNoArray pd ! offset = op
    \<and> (if firstInvalid t (pageNoArray pd) offset = Some (NONLEAFSIZE t + 1)
        then (\<exists>pl pr. splitNonLeaf t pd = Some (pl, pr)
               \<and> (if key \<ge> nkeyArray pd ! ?M
                   then length (pages s) \<le> gp \<and> gp < ?Q \<and> g = pr
                        \<and> nat goff + ?M + 1 = offset
                   else gp = pid \<and> g = pl \<and> nat goff = offset))
        else gp = pid \<and> g = pd \<and> nat goff = offset)
    \<and> pageNoArray g ! nat goff = op
    \<and> firstInvalid t (pageNoArray g) (nat goff) = Some kk \<and> kk \<le> NONLEAFSIZE t
    \<and> nonLeafAt s' gp = Some pd'
    \<and> pd' = g\<lparr>nkeyArray := withSlot (nkeyArray g) (nat goff) (kk - 1) ?K,
               pageNoArray := withSlot (pageNoArray g) (Suc (nat goff)) kk ?Q\<rparr>
    \<and> pageNoArray pd' ! nat goff = op
    \<and> nkeyArray pd' ! nat goff = ?K
    \<and> pageNoArray pd' ! (nat goff + 1) = ?Q
    \<and> (drop ?m (keyArray l) @ replicate ?m 0) ! 0 = ?K
    \<and> lastPageNo = op
    \<and> (if key > ?K
        then pageNo = ?Q \<and> insertAt = int ?a - int ?m
        else pageNo = op \<and> insertAt = int ?a)"
    by (intro conjI c1 c2 c3 c4 dpar pdo c7 c8 kk(1) kk(3) r3 c12 r3'(1) c14 c15 r4 r5 c18)
  show ?thesis
    by (intro exI) (rule big)
qed

lemma indexWith5_reachable: "reachable traits33 indexWith5"
proof -
  have "insertAll traits33 (newIndex traits33 ''relA'' 0) (entriesOf [10, 20, 30, 40, 50])
          = Some indexWith5"
    unfolding indexWith5_def indexAfter_def by code_simp
  with reachable.init [of traits33 "''relA''" 0] show ?thesis
    by (rule reachable_insertAll) (simp add: entriesOf_def ridOf_def occupied_def)
qed

lemma indexWith5_facts:
  "rootNode indexWith5 = Some \<lparr>level = 2, nkeyArray = [10, 20, 30], pageNoArray = [3, 4, 5, 6]\<rparr>"
  "rootPageNum indexWith5 = 2" "length (pages indexWith5) = 7"
  by code_simp+

lemma indexWith5Read_grown: "grown traits33 indexWith5Read"
proof -
  have g: "grown traits33 indexWith5"
    using indexWith5_reachable traits33_ok indexWith5_facts(1) by (rule reachable_grown) simp
  have e: "indexWith5Read = indexWith5\<lparr>bufLog := bufLog indexWith5 @ [Pin 2]\<rparr>"
    by (simp add: indexWith5Read_def readPage_def indexWith5_facts)
  show ?thesis by (subst e) (simp add: g)
qed

lemma C7_witness_facts:
  "getPageNoAndOffsetOfKeyInsert traits33 indexWith5Read 60 True = Some (afterSplit5, 9, 2, 2, 6)"
  "descentLeaf traits33 indexWith5Read 60 = Some (6, leaf5)"
  "length (takeWhile occupied (ridArray leaf5)) = LEAFSIZE traits33"
  "length (pages afterSplit5) = 10"
  by code_simp+

theorem C7_leaf_split_witness:
  "descentLeaf traits33 indexWith5Read 60 = Some (6, leaf5)
   \<and> length (takeWhile occupied (ridArray leaf5)) = LEAFSIZE traits33
   \<and> leafAt afterSplit5 9
       = Some \<lparr>keyArray = [40, 50, 0], ridArray = [ridOf 40, ridOf 50, noRid], rightSibPageNo = 0\<rparr>
   \<and> leafAt afterSplit5 6
       = Some \<lparr>keyArray = [30, 0, 0], ridArray = [ridOf 30, noRid, noRid], rightSibPageNo = 9\<rparr>
   \<and> (\<exists>G n off. nonLeafAt afterSplit5 G = Some n \<and> pageNoArray n ! off = 6
         \<and> nkeyArray n ! off = 40 \<and> pageNoArray n ! (off + 1) = 9)"
proof -
  from C7_leaf_split [OF C7_witness_facts(1) indexWith5Read_grown traits33_ok C7_witness_facts(2,3)]
  obtain R G n off where
    "R = length (pages afterSplit5) - 1"
    "leafAt afterSplit5 R = Some \<lparr>keyArray = drop (LEAFSIZE traits33 div 2) (keyArray leaf5)
                                        @ replicate (LEAFSIZE traits33 div 2) 0,
                           ridArray = drop (LEAFSIZE traits33 div 2) (ridArray leaf5)
                                        @ replicate (LEAFSIZE traits33 div 2) noRid,
                           rightSibPageNo = rightSibPageNo leaf5\<rparr>"
    "leafAt afterSplit5 6 = Some \<lparr>keyArray = take (LEAFSIZE traits33 div 2) (keyArray leaf5)
                                        @ replicate (LEAFSIZE traits33 - LEAFSIZE traits33 div 2) 0,
                           ridArray = take (LEAFSIZE traits33 div 2) (ridArray leaf5)
                                        @ replicate (LEAFSIZE traits33 - LEAFSIZE traits33 div 2) noRid,
                           rightSibPageNo = R\<rparr>"
    "nonLeafAt afterSplit5 G = Some n" "pageNoArray n ! off = 6"
    "nkeyArray n ! off = keyArray leaf5 ! (LEAFSIZE traits33 div 2)"
    "pageNoArray n ! (off + 1) = R"
    by blast
  then show ?thesis
    using C7_witness_facts(2,3,4)
    by (auto simp: traits33_def leaf5_def numeral_3_eq_3)
qed

section \<open>Pins during the descent\<close>

lemma callsBetween_append: "bufLog s' = bufLog s @ evs \<Longrightarrow> callsBetween s s' = evs"
  by (simp add: callsBetween_def)

text \<open>
  C8, as stated, fails in two of its clauses. The last: after the descent in insert mode
  for key 20 in the index that holds key 7, the root, which is on the path, is not pinned
  any more. The first: the descent in insert mode for key 40 in the index that holds 10,
  20, 30 splits the full leaf and has three pages pinned at once (the leaf, its parent and
  the new leaf).
\<close>

theorem C8_pins_counterexample:
  "\<not> rootStaysPinned traits33 indexWith7Read 20 \<and> \<not> atMostTwoPinned traits33 indexWith3Read 40 True"
  by code_simp

text \<open>
  C8 (amended): in every descent on an index that satisfies the invariant of the tree (or
  has no entry yet), for a caller that has pinned the root. The calls to the buffer manager
  begin with a walk from the root to the leaf in which every page is unpinned before the
  next one is read, so that at most one page is pinned at any time until the leaf is
  reached. When the descent does not split, the only call after the walk is the unpinning
  of the leaf, the page returned is that leaf, and at most one page (so at most two) is
  pinned at any time. When the leaf is full the descent splits it, in read-only mode as in
  insert mode, and pins further pages while it does. On exit from every descent, in
  read-only mode and in insert mode alike, no page remains pinned.
\<close>

theorem C8_descent_pins:
  assumes run: "getPageNoAndOffsetOfKeyInsert t s key insertMode
             = Some (s', pageNo, insertAt, endOfRecordsOffset, lastPageNo)"
    and wf: "fresh t s \<or> grown t s" and tr: "traitsOk t"
  shows "\<exists>visited rest. visited \<noteq> [] \<and> hd visited = rootPageNum s \<and> last visited = lastPageNo
           \<and> callsBetween s s' = hops visited @ rest
           \<and> (\<forall>n \<le> length (hops visited).
                 length (pinsAfter [rootPageNum s] (take n (callsBetween s s'))) \<le> 1)
           \<and> (length (pages s') = length (pages s) \<longrightarrow>
                 rest = [Unpin lastPageNo] \<and> pageNo = lastPageNo
                 \<and> (\<forall>n. length (pinsAfter [rootPageNum s] (take n (callsBetween s s'))) \<le> 1))
           \<and> pinsAfter [rootPageNum s] (callsBetween s s') = []"
proof -
  have core: "\<exists>v rest. v \<noteq> [] \<and> hd v = rootPageNum s \<and> last v = lastPageNo
      \<and> bufLog s' = bufLog s @ hops v @ rest
      \<and> pinsAfter [lastPageNo] rest = []
      \<and> (length (pages s') = length (pages s) \<longrightarrow> rest = [Unpin lastPageNo] \<and> pageNo = lastPageNo)"
    using wf
  proof
    assume f: "fresh t s"
    from run obtain rootData s1 lastPage path dataPage i a where
      rn: "nonLeafAt s (rootPageNum s) = Some rootData"
      and de: "descend t key (level rootData) s 1 (rootPageNum s) [] = Some (s1, lastPage, path)"
      and cs: "(i = LEAFSIZE t
           \<and> (\<exists>s2 G. splitParents t key s1 path False None = Some (s2, Some G)
                 \<and> splitLeaf t key s2 lastPage a G
                      = Some (s', pageNo, insertAt, endOfRecordsOffset, lastPageNo)))
         \<or> (i \<noteq> LEAFSIZE t \<and> s' = unPinPage s1 lastPage
             \<and> (pageNo, insertAt, endOfRecordsOffset, lastPageNo) = (lastPage, int a, i, lastPage))"
      by (rule getPageNo_cases)
    from f rn have "level rootData = 1" by (auto simp: fresh_def nonLeafAt_Some)
    with de have e: "s1 = s" "lastPage = rootPageNum s" "path = []"
      by (auto simp: descend.simps)
    with cs have "s' = unPinPage s (rootPageNum s)" "pageNo = rootPageNum s"
      "lastPageNo = rootPageNum s"
      by auto
    then show ?thesis
      by (intro exI [of _ "[rootPageNum s]"] exI [of _ "[Unpin (rootPageNum s)]"])
         (simp add: unPinPage_def)
  next
    assume g: "grown t s"
    from run g obtain rootData s1 lastPage path dataPage i a where
      rn: "nonLeafAt s (rootPageNum s) = Some rootData"
      and de: "descend t key (level rootData) s 1 (rootPageNum s) [] = Some (s1, lastPage, path)"
      and lf: "leafAt s1 lastPage = Some dataPage" and po: "pathOk t s1 lastPage 2 path"
      and g1: "grown t s1"
      and cs: "(i = LEAFSIZE t
           \<and> (\<exists>s2 G. splitParents t key s1 path False None = Some (s2, Some G)
                 \<and> splitLeaf t key s2 lastPage a G
                      = Some (s', pageNo, insertAt, endOfRecordsOffset, lastPageNo)))
         \<or> (i \<noteq> LEAFSIZE t \<and> s' = unPinPage s1 lastPage
             \<and> (pageNo, insertAt, endOfRecordsOffset, lastPageNo) = (lastPage, int a, i, lastPage))"
      by (rule getPageNo_grown_cases)
    from descend_frame [OF de] obtain q :: "(nat \<times> nat) list" where
      hd: "hd (rev (map snd q) @ [lastPage]) = rootPageNum s"
      and s1: "s1 = s\<lparr>bufLog := bufLog s @ hops (rev (map snd q) @ [lastPage])\<rparr>"
      by blast
    let ?v = "rev (map snd q) @ [lastPage]"
    have l1: "length (pages s1) = length (pages s)" "bufLog s1 = bufLog s @ hops ?v"
      by (subst s1, simp)+
    from cs show ?thesis
    proof (elim disjE conjE exE)
      assume "s' = unPinPage s1 lastPage"
        "(pageNo, insertAt, endOfRecordsOffset, lastPageNo) = (lastPage, int a, i, lastPage)"
      then show ?thesis
        using hd l1(2)
        by (intro exI [of _ ?v] exI [of _ "[Unpin lastPage]"]) (simp add: unPinPage_def)
    next
      fix s2 G
      assume sp: "splitParents t key s1 path False None = Some (s2, Some G)"
        and sl: "splitLeaf t key s2 lastPage a G
                      = Some (s', pageNo, insertAt, endOfRecordsOffset, lastPageNo)"
      obtain gp goff where G: "G = (gp, goff)" by (cases G)
      have "(\<forall>p n. nonLeafAt s1 p = Some n \<and> level n < 2 \<longrightarrow> nonLeafAt s2 p = Some n)
         \<and> (False \<longrightarrow> Some G = None) \<and> length (pages s1) \<le> length (pages s2)
         \<and> (\<exists>evs. bufLog s2 = bufLog s1 @ evs
               \<and> (\<forall>P. pinsAfter P evs
                       = (if False then P
                          else (case Some G of Some (gp, goff) \<Rightarrow> gp # P | None \<Rightarrow> P))))"
        using sp g1 tr po by (rule splitParents_detail) simp_all
      then obtain evs where l2: "length (pages s1) \<le> length (pages s2)"
        and ev: "bufLog s2 = bufLog s1 @ evs" "\<forall>P. pinsAfter P evs = gp # P"
        by (auto simp: G)
      from splitLeaf_Some [OF sl [unfolded G]] obtain pd dp where
        n: "nonLeafAt s2 gp = Some pd" "leafAt s2 lastPage = Some dp"
        and out: "lastPageNo = lastPage"
        by (auto split: if_splits)
      have d: "gp < length (pages s2)" "lastPage < length (pages s2)" "gp \<noteq> lastPage"
        using n by (auto simp: nonLeafAt_Some leafAt_Some)
      let ?R = "length (pages s2)"
      let ?rest = "evs @ [Pin ?R, Unpin lastPage, Unpin gp, Unpin ?R]"
      have lg: "bufLog s' = bufLog s @ hops ?v @ ?rest"
        using splitLeaf_log [OF sl [unfolded G]] ev(1) l1(2) by simp
      have "pinsAfter [lastPage] ?rest = []"
        using ev(2) d by (simp add: pinsAfter_append)
      moreover have "length (pages s') \<noteq> length (pages s)"
        using splitLeaf_length [OF sl] l2 l1(1) by simp
      ultimately show ?thesis
        using hd lg out
        by (intro exI [of _ ?v] exI [of _ ?rest]) simp
    qed
  qed
  then obtain v rest where v: "v \<noteq> []" "hd v = rootPageNum s" "last v = lastPageNo"
    and lg: "bufLog s' = bufLog s @ hops v @ rest"
    and fin: "pinsAfter [lastPageNo] rest = []"
    and ns: "length (pages s') = length (pages s) \<longrightarrow> rest = [Unpin lastPageNo] \<and> pageNo = lastPageNo"
    by blast
  have cb: "callsBetween s s' = hops v @ rest" using lg by (rule callsBetween_append)
  obtain tl where vt: "v = rootPageNum s # tl" using v(1,2) by (cases v) auto
  have walk: "pinsAfter [rootPageNum s] (hops v) = [lastPageNo]"
    using pinsAfter_hops [of "rootPageNum s" tl] v(3) vt by simp
  have all: "pinsAfter [rootPageNum s] (callsBetween s s') = []"
    by (simp only: cb pinsAfter_append walk fin)
  have pre: "length (pinsAfter [rootPageNum s] (take n (callsBetween s s'))) \<le> 1"
    if "n \<le> length (hops v)" for n
  proof -
    from that have "take n (callsBetween s s') = take n (hops v)" by (simp add: cb)
    then show ?thesis
      using pinsAfter_hops_prefix [of "rootPageNum s" n tl] vt by simp
  qed
  have pre2: "length (pinsAfter [rootPageNum s] (take n (callsBetween s s'))) \<le> 1"
    if e: "length (pages s') = length (pages s)" for n
  proof (cases "n \<le> length (hops v)")
    case True
    then show ?thesis by (rule pre)
  next
    case False
    with ns e have "take n (callsBetween s s') = callsBetween s s'" by (simp add: cb)
    then show ?thesis using all by simp
  qed
  show ?thesis
    using v cb pre pre2 ns all
    by (intro exI [of _ v] exI [of _ rest]) simp
qed

lemma C8_witness_facts:
  "getPageNoAndOffsetOfKeyInsert traits33 indexWith5Read 60 True = Some (afterSplit5, 9, 2, 2, 6)"
  "callsBetween indexWith5Read afterSplit5
     = [Unpin 2, Pin 6, Pin 2, Pin 7, Pin 8, Unpin 7, Unpin 2, Pin 9, Unpin 6, Unpin 8, Unpin 9]"
  "rootPageNum indexWith5Read = 2"
  by code_simp+

theorem C8_descent_pins_witness:
  "callsBetween indexWith5Read afterSplit5
     = [Unpin 2, Pin 6, Pin 2, Pin 7, Pin 8, Unpin 7, Unpin 2, Pin 9, Unpin 6, Unpin 8, Unpin 9]
   \<and> pinsAfter [2] (callsBetween indexWith5Read afterSplit5) = []"
  using C8_descent_pins [OF C8_witness_facts(1) disjI2 [OF indexWith5Read_grown] traits33_ok]
    C8_witness_facts(2,3)
  by auto

section \<open>The round trip of inserts and a full scan\<close>

text \<open>
  C1 fails in the code: on the index that holds 10, 20, 30 the scan \<open>(0, GT, 100, LT)\<close>,
  whose range holds every key, yields the record ids of 20 and 30 only.
  \<open>startScanTemplate\<close> moves the cursor from the empty left leaf of the bootstrap to its
  right sibling, but goes on testing the keys through the pointer to the leaf it has left,
  whose slots are all zero: the low bound 0 with \<open>GT\<close> equals that zero, and the first
  entry of the sibling is skipped.
\<close>

theorem C1_scan_misses_first_entry:
  "scanFrom traits33 4 0 GT 100 LT indexWith3
     = ([ridOf 20, ridOf 30], Some IndexScanCompletedException)"
  by code_simp

end
